theory Spec2Isabelle
  imports Complex_Main "HOL-Library.Product_Lexorder"
begin

section \<open>Positions (structures.cpp)\<close>

text \<open>
  \<^verbatim>\<open>struct Position { int row; int col; }\<close>.  The grid limits \<^verbatim>\<open>MAX_ROWS\<close> and
  \<^verbatim>\<open>MAX_COLS\<close> are declared in \<^verbatim>\<open>common.h\<close>, which is not among the sources; every
  function that reads them takes them as its first two arguments.
\<close>

datatype Position = Position (row: int) (col: int)

definition LETTERS :: int where
  "LETTERS = 26"

definition MAX_POSITION_LENGTH :: nat where
  "MAX_POSITION_LENGTH = 17"

definition MAX_POS_LETTER_COUNT :: nat where
  "MAX_POS_LETTER_COUNT = 3"

definition NONE :: Position where
  "NONE = Position (- 1) (- 1)"

definition IsValid :: "int \<Rightarrow> int \<Rightarrow> Position \<Rightarrow> bool" where
  "IsValid MAX_ROWS MAX_COLS p \<longleftrightarrow>
     row p \<ge> 0 \<and> col p \<ge> 0 \<and> row p < MAX_ROWS \<and> col p < MAX_COLS"

text \<open>A 32-bit \<^verbatim>\<open>int\<close>: the value an arithmetic result has after two's complement
  wrap-around.\<close>

definition int32 :: "int \<Rightarrow> int" where
  "int32 x = (x + 2 ^ 31) mod 2 ^ 32 - 2 ^ 31"

text \<open>The character classes of \<^verbatim>\<open><cctype>\<close> in the C locale.\<close>

definition isupper :: "char \<Rightarrow> bool" where
  "isupper c \<longleftrightarrow> 65 \<le> (of_char c :: int) \<and> (of_char c :: int) \<le> 90"

definition islower :: "char \<Rightarrow> bool" where
  "islower c \<longleftrightarrow> 97 \<le> (of_char c :: int) \<and> (of_char c :: int) \<le> 122"

definition isalpha :: "char \<Rightarrow> bool" where
  "isalpha c \<longleftrightarrow> isupper c \<or> islower c"

definition isdigit :: "char \<Rightarrow> bool" where
  "isdigit c \<longleftrightarrow> 48 \<le> (of_char c :: int) \<and> (of_char c :: int) \<le> 57"

text \<open>\<^verbatim>\<open>std::to_string(int)\<close>: the decimal digits, most significant first.\<close>

function digits10 :: "nat \<Rightarrow> string" where
  "digits10 n = (if n < 10 then [char_of (48 + n)]
                 else digits10 (n div 10) @ [char_of (48 + n mod 10)])"
  by pat_completeness auto
termination
  by (relation "measure (\<lambda>n. n)") auto

declare digits10.simps [simp del]

definition to_string :: "int \<Rightarrow> string" where
  "to_string n = (if n < 0 then CHR ''-'' # digits10 (nat (- n)) else digits10 (nat n))"

text \<open>The loop of \<^verbatim>\<open>Position::ToString\<close>:
  \<^verbatim>\<open>while (col_copy >= 0) { result.insert(result.begin(), 'A' + col_copy % LETTERS);
     col_copy = col_copy / LETTERS - 1; }\<close>\<close>

function ToString_letters :: "int \<Rightarrow> string \<Rightarrow> string" where
  "ToString_letters col_copy result =
     (if col_copy \<ge> 0
      then ToString_letters (col_copy div LETTERS - 1)
             (char_of (65 + col_copy mod LETTERS) # result)
      else result)"
  by pat_completeness auto
termination
  by (relation "measure (\<lambda>(c, r). nat (c + 1))") (auto simp: LETTERS_def)

declare ToString_letters.simps [simp del]

definition ToString :: "int \<Rightarrow> int \<Rightarrow> Position \<Rightarrow> string" where
  "ToString MAX_ROWS MAX_COLS p =
     (if \<not> IsValid MAX_ROWS MAX_COLS p then []
      else ToString_letters (col p) [] @ to_string (row p + 1))"

text \<open>The first loop of \<^verbatim>\<open>Position::FromString\<close>: counts the leading letters;
  \<open>None\<close> is the \<^verbatim>\<open>return NONE\<close> inside the loop (a letter that is not upper case).\<close>

function count_letters :: "string \<Rightarrow> nat \<Rightarrow> nat option" where
  "count_letters str letter_count =
     (if letter_count < length str \<and> isalpha (str ! letter_count)
      then (if \<not> isupper (str ! letter_count) then None
            else count_letters str (letter_count + 1))
      else Some letter_count)"
  by pat_completeness auto
termination
  by (relation "measure (\<lambda>(s, n). length s - n)") auto

declare count_letters.simps [simp del]

text \<open>The two decoding loops.  The column loop runs over at most three letters and stays
  below \<open>26 ^ 3 + 26 ^ 2 + 26\<close>; the row loop runs over up to sixteen digits, so its
  \<^verbatim>\<open>int\<close> arithmetic wraps.\<close>

definition parse_col :: "string \<Rightarrow> int" where
  "parse_col letters = foldl (\<lambda>col c. col * LETTERS + (of_char c - 65 + 1)) 0 letters"

definition parse_row :: "string \<Rightarrow> int" where
  "parse_row digits = foldl (\<lambda>row c. int32 (int32 (row * 10) + (of_char c - 48))) 0 digits"

definition FromString :: "int \<Rightarrow> int \<Rightarrow> string \<Rightarrow> Position" where
  "FromString MAX_ROWS MAX_COLS str =
     (if str = [] \<or> length str > MAX_POSITION_LENGTH then NONE
      else case count_letters str 0 of
        None \<Rightarrow> NONE
      | Some letter_count \<Rightarrow>
          if letter_count = 0 \<or> letter_count > MAX_POS_LETTER_COUNT then NONE
          else if letter_count = length str then NONE
          else if \<not> list_all isdigit (drop letter_count str) then NONE
          else
            let col = parse_col (take letter_count str) - 1;
                row = int32 (parse_row (drop letter_count str) - 1);
                result = Position row col
            in if IsValid MAX_ROWS MAX_COLS result then result else NONE)"

text \<open>The digit part of a label and the number it denotes, without wrap-around; used to
  state which labels the decoder reads exactly.\<close>

definition digit_part :: "string \<Rightarrow> string" where
  "digit_part str = dropWhile isalpha str"

definition decimal :: "string \<Rightarrow> int" where
  "decimal ds = foldl (\<lambda>a c. a * 10 + (of_char c - 48)) 0 ds"

section \<open>Values, errors and the external formula parser\<close>

text \<open>
  \<^verbatim>\<open>double\<close>: the sources never compute with a double, they produce the constant
  \<^verbatim>\<open>0.0\<close> and pass on what \<^verbatim>\<open>std::stod\<close> and the parser's \<^verbatim>\<open>Execute\<close> return; a
  double is modelled as a real number.  An infinity and a NaN are not among them.
\<close>

type_synonym double = real

datatype Category = Ref | Value | Arithmetic

datatype FormulaError = FormulaError (GetCategory: Category)

text \<open>\<^verbatim>\<open>CellInterface::Value = std::variant<std::string, double, FormulaError>\<close>\<close>

datatype CellValue = VString string | VDouble double | VError FormulaError

text \<open>What can be thrown.  \<open>Thrown\<close> is a \<^verbatim>\<open>throw\<close> of a \<^verbatim>\<open>FormulaError\<close> value;
  \<open>std_exception\<close> stands for every other \<^verbatim>\<open>std::exception\<close>.\<close>

datatype exn =
    InvalidPositionException string
  | FormulaException string
  | CircularDependencyException string
  | std_exception string
  | Thrown FormulaError

fun what :: "exn \<Rightarrow> string" where
  "what (InvalidPositionException m) = m"
| "what (FormulaException m) = m"
| "what (CircularDependencyException m) = m"
| "what (std_exception m) = m"
| "what (Thrown fe) = []"

text \<open>The outcome of a call on a state \<open>'s\<close>: it returns a value, or it throws, or it
  dereferences a pointer to a destroyed cell (undefined behaviour).  A throw keeps the
  state reached so far.\<close>

datatype ('a, 's) result = Returned 'a 's | Raised exn 's | Undefined


text \<open>Modelled from the spec: the tokens \<^verbatim>\<open>FORMULA_SIGN\<close> (the equals sign) and
  \<^verbatim>\<open>ESCAPE_SIGN\<close> (the ASCII apostrophe) of \<^verbatim>\<open>common.h\<close>, which is not among the
  sources.\<close>

definition FORMULA_SIGN :: char where
  "FORMULA_SIGN = CHR ''=''"

definition ESCAPE_SIGN :: char where
  "ESCAPE_SIGN = CHR 0x27"

text \<open>
  Modelled from the spec: \<^verbatim>\<open>FormulaAST::Execute\<close> (\<^verbatim>\<open>FormulaAST.h\<close> is not among the
  sources).  The spec gives its interface only: it is handed a resolver from positions to
  doubles, may raise a \<^verbatim>\<open>FormulaError\<close>, and returns a double.  An execution is therefore
  a tree: it is done with a double, it throws, or it asks the resolver for a position and
  continues with the answer.  An exception of the resolver leaves \<^verbatim>\<open>Execute\<close> unhandled.
\<close>

datatype evaluation =
    Done double
  | Throws FormulaError
  | Ask Position "double \<Rightarrow> evaluation"

text \<open>
  What the sources use and do not define: the grid limits and the parser
  (\<^verbatim>\<open>ParseFormulaAST\<close> with the three operations of the tree it returns).
\<close>

record 'ast env =
  MAX_ROWS :: int
  MAX_COLS :: int
  ParseFormulaAST :: "string \<Rightarrow> exn + 'ast"
  Execute :: "'ast \<Rightarrow> evaluation"
  PrintFormula :: "'ast \<Rightarrow> string"
  ast_GetReferencedCells :: "'ast \<Rightarrow> Position list"

section \<open>The standard library: std::stod and the stream output of a double\<close>

text \<open>
  \<^verbatim>\<open>Formula::Evaluate\<close> reads the text of a cell with \<^verbatim>\<open>std::stod(s, &idx)\<close>, which is
  \<^verbatim>\<open>strtod\<close> of the C library in the C locale with two exceptions: \<^verbatim>\<open>invalid_argument\<close>
  if nothing could be converted, \<^verbatim>\<open>out_of_range\<close> if \<^verbatim>\<open>strtod\<close> sets \<^verbatim>\<open>ERANGE\<close>.  It is
  written out here from the grammar of the C standard (7.22.1.3): white space is skipped,
  then comes an optional sign and the longest of
  \<^item> \<^verbatim>\<open>INF\<close> or \<^verbatim>\<open>INFINITY\<close>, or \<^verbatim>\<open>NAN\<close> with an optional sequence in parentheses, in any
    case of the letters;
  \<^item> \<^verbatim>\<open>0x\<close> or \<^verbatim>\<open>0X\<close>, hexadecimal digits with an optional point, and an optional binary
    exponent after \<^verbatim>\<open>p\<close> or \<^verbatim>\<open>P\<close>;
  \<^item> decimal digits with an optional point, and an optional decimal exponent after
    \<^verbatim>\<open>e\<close> or \<^verbatim>\<open>E\<close>.

  \<open>idx\<close> is the number of characters read, the skipped white space included.  The number
  read is the exact real number: the rounding to the nearest double is not modelled.
\<close>

datatype stod_result = stod_value double nat | stod_invalid_argument | stod_out_of_range

definition isspace :: "char \<Rightarrow> bool" where
  "isspace c \<longleftrightarrow>
     (of_char c :: int) = 32 \<or> (9 \<le> (of_char c :: int) \<and> (of_char c :: int) \<le> 13)"

definition isxdigit :: "char \<Rightarrow> bool" where
  "isxdigit c \<longleftrightarrow>
     isdigit c \<or> (65 \<le> (of_char c :: int) \<and> (of_char c :: int) \<le> 70)
     \<or> (97 \<le> (of_char c :: int) \<and> (of_char c :: int) \<le> 102)"

definition tolower :: "char \<Rightarrow> char" where
  "tolower c = (if isupper c then char_of (of_char c + 32 :: int) else c)"

definition hexadecimal :: "string \<Rightarrow> int" where
  "hexadecimal ds =
     foldl (\<lambda>a c. a * 16 + (if isdigit c then of_char c - 48
                              else if islower c then of_char c - 87 else of_char c - 55)) 0 ds"

text \<open>\<open>r\<close> begins with the lower-case \<open>word\<close>, in any case of the letters.\<close>

definition starts_with :: "string \<Rightarrow> string \<Rightarrow> bool" where
  "starts_with word r \<longleftrightarrow> map tolower (take (length word) r) = word"

text \<open>\<open>v\<close> times \<open>b\<close> to the power \<open>e\<close>.\<close>

definition scaled :: "real \<Rightarrow> int \<Rightarrow> int \<Rightarrow> real" where
  "scaled v b e = (if e \<ge> 0 then v * of_int b ^ nat e else v / of_int b ^ nat (- e))"

text \<open>Digits with an optional point, at least one digit before or after the point: the
  number and how many characters it takes.\<close>

definition mantissa ::
  "(char \<Rightarrow> bool) \<Rightarrow> (string \<Rightarrow> int) \<Rightarrow> int \<Rightarrow> string \<Rightarrow> (real \<times> nat) option"
where
  "mantissa is_digit number base r =
     (let whole = takeWhile is_digit r;
          after = dropWhile is_digit r;
          point = (after \<noteq> [] \<and> hd after = CHR ''.'');
          fraction = (if point then takeWhile is_digit (tl after) else [])
      in if whole = [] \<and> fraction = [] then None
         else Some (of_int (number whole)
                      + of_int (number fraction) / of_int base ^ length fraction,
                    length whole + (if point then 1 + length fraction else 0)))"

text \<open>The exponent after the marker, if it has a digit: its value and how many characters
  it takes (none if there is no exponent).\<close>

definition exponent_part :: "char \<Rightarrow> string \<Rightarrow> int \<times> nat" where
  "exponent_part marker r =
     (if r \<noteq> [] \<and> tolower (hd r) = marker then
        (let signed = (tl r \<noteq> [] \<and> (hd (tl r) = CHR ''-'' \<or> hd (tl r) = CHR ''+''));
             digits = takeWhile isdigit (if signed then tl (tl r) else tl r)
         in if digits = [] then (0, 0)
            else (if signed \<and> hd (tl r) = CHR ''-'' then - decimal digits else decimal digits,
                  1 + (if signed then 1 else 0) + length digits))
      else (0, 0))"

definition number_subject ::
  "(char \<Rightarrow> bool) \<Rightarrow> (string \<Rightarrow> int) \<Rightarrow> int \<Rightarrow> char \<Rightarrow> int \<Rightarrow> string \<Rightarrow> (real \<times> nat) option"
where
  "number_subject is_digit number base marker exponent_base r =
     (case mantissa is_digit number base r of
        None \<Rightarrow> None
      | Some (m, n) \<Rightarrow>
          (case exponent_part marker (drop n r) of
             (e, k) \<Rightarrow> Some (scaled m exponent_base e, n + k)))"

text \<open>The characters of the optional sequence after \<^verbatim>\<open>NAN\<close>, parentheses included.\<close>

definition nan_sequence :: "string \<Rightarrow> nat" where
  "nan_sequence r =
     (if r \<noteq> [] \<and> hd r = CHR ''(''
         \<and> dropWhile (\<lambda>c. isalpha c \<or> isdigit c \<or> c = CHR ''_'') (tl r) \<noteq> []
         \<and> hd (dropWhile (\<lambda>c. isalpha c \<or> isdigit c \<or> c = CHR ''_'') (tl r)) = CHR '')''
      then 2 + length (takeWhile (\<lambda>c. isalpha c \<or> isdigit c \<or> c = CHR ''_'') (tl r))
      else 0)"

text \<open>An infinity and a NaN are doubles and not real numbers: the model says of their
  value only that it is some double.\<close>

definition not_a_real :: double where
  "not_a_real = undefined"

text \<open>The subject sequence after the sign: its value (\<open>None\<close> for an infinity or a NaN)
  and its length, or \<open>None\<close> if there is none.  \<^verbatim>\<open>0x\<close> without a hexadecimal digit is
  the decimal \<open>0\<close> followed by \<open>x\<close>.\<close>

definition strtod_subject :: "string \<Rightarrow> (double option \<times> nat) option" where
  "strtod_subject r =
     (if starts_with ''infinity'' r then Some (None, 8)
      else if starts_with ''inf'' r then Some (None, 3)
      else if starts_with ''nan'' r then Some (None, 3 + nan_sequence (drop 3 r))
      else if starts_with ''0x'' r \<and> mantissa isxdigit hexadecimal 16 (drop 2 r) \<noteq> None then
        (case number_subject isxdigit hexadecimal 16 (CHR ''p'') 2 (drop 2 r) of
           None \<Rightarrow> None
         | Some (v, n) \<Rightarrow> Some (Some v, 2 + n))
      else (case number_subject isdigit decimal 10 (CHR ''e'') 10 r of
              None \<Rightarrow> None
            | Some (v, n) \<Rightarrow> Some (Some v, n)))"

definition strtod :: "string \<Rightarrow> (double option \<times> nat) option" where
  "strtod str =
     (let r = dropWhile isspace str;
          signed = (r \<noteq> [] \<and> (hd r = CHR ''-'' \<or> hd r = CHR ''+''))
      in case strtod_subject (if signed then tl r else r) of
           None \<Rightarrow> None
         | Some (v, n) \<Rightarrow>
             Some (if signed \<and> hd r = CHR ''-'' then map_option uminus v else v,
                   length (takeWhile isspace str) + (if signed then 1 else 0) + n))"

text \<open>\<^verbatim>\<open>ERANGE\<close>: the number rounds to an infinity (it is at least half way from the
  largest double to \<open>2 ^ 1024\<close>), or it is not zero, lies below the smallest normal double
  also after rounding, and is not a subnormal double itself (the underflow of the GNU C
  library).\<close>

definition out_of_double_range :: "real \<Rightarrow> bool" where
  "out_of_double_range v \<longleftrightarrow>
     \<bar>v\<bar> \<ge> 2 ^ 1024 - 2 ^ 970
     \<or> (v \<noteq> 0 \<and> \<bar>v\<bar> < 1 / 2 ^ 1022 - 1 / 2 ^ 1076
         \<and> of_int \<lfloor>v * 2 ^ 1074\<rfloor> \<noteq> v * 2 ^ 1074)"

definition std_stod :: "string \<Rightarrow> stod_result" where
  "std_stod str =
     (case strtod str of
        None \<Rightarrow> stod_invalid_argument
      | Some (None, idx) \<Rightarrow> stod_value not_a_real idx
      | Some (Some v, idx) \<Rightarrow>
          if out_of_double_range v then stod_out_of_range else stod_value v idx)"









section \<open>The formula facade (formula.cpp)\<close>

text \<open>The constructor of \<^verbatim>\<open>Formula\<close>: a \<^verbatim>\<open>FormulaException\<close> of the parser is passed on,
  any other exception becomes a \<^verbatim>\<open>FormulaException\<close>.\<close>

definition ParseFormula :: "'ast env \<Rightarrow> string \<Rightarrow> exn + 'ast" where
  "ParseFormula env expression =
     (case ParseFormulaAST env expression of
        Inr ast \<Rightarrow> Inr ast
      | Inl (FormulaException m) \<Rightarrow> Inl (FormulaException m)
      | Inl e \<Rightarrow> Inl (FormulaException (''Formula parsing error: '' @ what e)))"

definition GetExpression :: "'ast env \<Rightarrow> 'ast \<Rightarrow> string" where
  "GetExpression env ast = PrintFormula env ast"

text \<open>\<^verbatim>\<open>std::sort\<close> with \<^verbatim>\<open>Position::operator<\<close> (rows first, then columns), then
  \<^verbatim>\<open>std::unique\<close>.\<close>

definition Formula_GetReferencedCells :: "'ast env \<Rightarrow> 'ast \<Rightarrow> Position list" where
  "Formula_GetReferencedCells env ast =
     remdups_adj (sort_key (\<lambda>p. (row p, col p)) (ast_GetReferencedCells env ast))"

section \<open>Cells (cell.h, cell.cpp)\<close>

text \<open>
  A \<^verbatim>\<open>Cell*\<close> is an address.  The sheet allocates every cell; a destroyed cell leaves its
  address empty, and an address is never given out twice, so that a pointer to a destroyed
  cell stays dangling.  The three implementations are one datatype; a formula carries its
  parsed tree and its \<^verbatim>\<open>cache_\<close>.  An \<^verbatim>\<open>unordered_set<Cell*>\<close> is a list without
  duplicates: \<^verbatim>\<open>insert\<close> appends an address that is not yet there.
\<close>

type_synonym addr = nat

datatype 'ast Impl = EmptyImpl | TextImpl string | FormulaImpl 'ast "CellValue option"

record 'ast Cell =
  impl :: "'ast Impl"
  source_cells :: "addr list"
  dependent_cells :: "addr list"

text \<open>\<^verbatim>\<open>std::vector<std::vector<std::unique_ptr<Cell>>> cells_\<close>, and the allocated cells.\<close>

record 'ast Sheet =
  cells :: "addr option list list"
  heap :: "'ast Cell option list"

definition cell_at :: "'ast Sheet \<Rightarrow> addr \<Rightarrow> 'ast Cell option" where
  "cell_at s a = (if a < length (heap s) then heap s ! a else None)"

definition put_cell :: "addr \<Rightarrow> 'ast Cell \<Rightarrow> 'ast Sheet \<Rightarrow> 'ast Sheet" where
  "put_cell a c s = s\<lparr>heap := (heap s)[a := Some c]\<rparr>"

definition set_insert :: "addr \<Rightarrow> addr list \<Rightarrow> addr list" where
  "set_insert a xs = (if a \<in> set xs then xs else xs @ [a])"

definition set_erase :: "addr \<Rightarrow> addr list \<Rightarrow> addr list" where
  "set_erase a xs = removeAll a xs"

fun Impl_GetText :: "'ast env \<Rightarrow> 'ast Impl \<Rightarrow> string" where
  "Impl_GetText env EmptyImpl = []"
| "Impl_GetText env (TextImpl text) = text"
| "Impl_GetText env (FormulaImpl ast cache) = FORMULA_SIGN # GetExpression env ast"

fun Impl_GetReferencedCells :: "'ast env \<Rightarrow> 'ast Impl \<Rightarrow> Position list" where
  "Impl_GetReferencedCells env EmptyImpl = []"
| "Impl_GetReferencedCells env (TextImpl text) = []"
| "Impl_GetReferencedCells env (FormulaImpl ast cache) = Formula_GetReferencedCells env ast"

fun InvalidateCache :: "'ast Impl \<Rightarrow> 'ast Impl" where
  "InvalidateCache EmptyImpl = EmptyImpl"
| "InvalidateCache (TextImpl text) = TextImpl text"
| "InvalidateCache (FormulaImpl ast cache) = FormulaImpl ast None"

definition TextImpl_GetValue :: "string \<Rightarrow> CellValue" where
  "TextImpl_GetValue text =
     (if text \<noteq> [] \<and> hd text = ESCAPE_SIGN then VString (tl text) else VString text)"

definition Cell_GetText :: "'ast env \<Rightarrow> 'ast Cell \<Rightarrow> string" where
  "Cell_GetText env c = Impl_GetText env (impl c)"

definition Cell_GetReferencedCells :: "'ast env \<Rightarrow> 'ast Cell \<Rightarrow> Position list" where
  "Cell_GetReferencedCells env c = Impl_GetReferencedCells env (impl c)"

definition IsReferenced :: "'ast Cell \<Rightarrow> bool" where
  "IsReferenced c \<longleftrightarrow> dependent_cells c \<noteq> []"

text \<open>The constructor \<^verbatim>\<open>Cell::Cell\<close>.\<close>

definition new_Cell :: "'ast Cell" where
  "new_Cell = \<lparr>impl = EmptyImpl, source_cells = [], dependent_cells = []\<rparr>"

section \<open>The sheet: storage and lookup (sheet.h, sheet.cpp)\<close>

definition new_Sheet :: "'ast Sheet" where
  "new_Sheet = \<lparr>cells = [[None]], heap = []\<rparr>"

text \<open>\<^verbatim>\<open>ResizeIfNeeded\<close>: \<^verbatim>\<open>vec.resize(idx + 1)\<close> appends default elements.\<close>

definition ResizeIfNeeded :: "'a \<Rightarrow> 'a list \<Rightarrow> int \<Rightarrow> 'a list" where
  "ResizeIfNeeded dflt vec idx =
     (if idx \<ge> int (length vec) then vec @ replicate (nat (idx + 1) - length vec) dflt else vec)"

definition MaybeIncreaseSizeToIncludePosition :: "Position \<Rightarrow> 'ast Sheet \<Rightarrow> 'ast Sheet" where
  "MaybeIncreaseSizeToIncludePosition pos s =
     (let rows = ResizeIfNeeded [] (cells s) (row pos)
      in s\<lparr>cells := (if col pos \<ge> 0 then map (\<lambda>r. ResizeIfNeeded None r (col pos)) rows
                      else rows)\<rparr>)"

definition GetCell :: "'ast env \<Rightarrow> Position \<Rightarrow> 'ast Sheet \<Rightarrow> exn + addr option" where
  "GetCell env pos s =
     (if \<not> IsValid (MAX_ROWS env) (MAX_COLS env) pos
      then Inl (InvalidPositionException ''Invalid position'')
      else if row pos \<ge> int (length (cells s))
              \<or> col pos \<ge> int (length (cells s ! nat (row pos)))
      then Inr None
      else Inr (cells s ! nat (row pos) ! nat (col pos)))"

text \<open>\<^verbatim>\<open>GetConcreteCell\<close> is \<^verbatim>\<open>GetCell\<close> with a \<^verbatim>\<open>dynamic_cast\<close> that never fails: every
  cell of the sheet is a \<^verbatim>\<open>Cell\<close>.\<close>

definition GetConcreteCell :: "'ast env \<Rightarrow> Position \<Rightarrow> 'ast Sheet \<Rightarrow> exn + addr option" where
  "GetConcreteCell env pos s = GetCell env pos s"

text \<open>\<^verbatim>\<open>cells_[pos.row][pos.col] = std::make_unique<Cell>(*this)\<close>: a new cell at a
  fresh address.\<close>

definition make_Cell :: "Position \<Rightarrow> 'ast Sheet \<Rightarrow> addr \<times> 'ast Sheet" where
  "make_Cell pos s =
     (let a = length (heap s)
      in (a, s\<lparr>cells := (cells s)[nat (row pos) :=
                    (cells s ! nat (row pos))[nat (col pos) := Some a]],
                heap := heap s @ [Some new_Cell]\<rparr>))"

section \<open>The dependency graph (cell.cpp)\<close>

text \<open>\<^verbatim>\<open>Cell::CheckCircularDependency\<close>, first loop: the queue is seeded with the existing
  cells at the new references; \<open>True\<close> is the \<^verbatim>\<open>return true\<close> at the cell itself.\<close>

fun CheckCircularDependency_seed ::
  "'ast env \<Rightarrow> 'ast Sheet \<Rightarrow> addr \<Rightarrow> Position list \<Rightarrow> addr list \<Rightarrow> exn + bool \<times> addr list"
where
  "CheckCircularDependency_seed env s this [] queue = Inr (False, queue)"
| "CheckCircularDependency_seed env s this (pos # rest) queue =
     (case GetConcreteCell env pos s of
        Inl e \<Rightarrow> Inl e
      | Inr None \<Rightarrow> CheckCircularDependency_seed env s this rest queue
      | Inr (Some c) \<Rightarrow>
          if c = this then Inr (True, queue)
          else CheckCircularDependency_seed env s this rest (queue @ [c]))"

text \<open>Second loop: breadth first along \<^verbatim>\<open>source_cells_\<close>.  \<open>None\<close> is the read of a
  destroyed cell.\<close>

function CheckCircularDependency_bfs ::
  "'ast Sheet \<Rightarrow> addr \<Rightarrow> addr list \<Rightarrow> addr list \<Rightarrow> bool option"
where
  "CheckCircularDependency_bfs s this [] visited = Some False"
| "CheckCircularDependency_bfs s this (cur # queue) visited =
     (if cur \<in> set visited then CheckCircularDependency_bfs s this queue visited
      else if cur = this then Some True
      else case cell_at s cur of
             None \<Rightarrow> None
           | Some c \<Rightarrow> CheckCircularDependency_bfs s this (queue @ source_cells c) (cur # visited))"
  by pat_completeness auto
termination
proof (relation "measures [\<lambda>(s, this, queue, visited). card ({a. a < length (heap s)} - set visited),
                           \<lambda>(s, this, queue, visited). length queue]", goal_cases)
  case 1
  then show ?case by simp
next
  case (2 s this cur queue visited)
  then show ?case by simp
next
  case (3 s this cur queue visited c)
  then have "cur < length (heap s)"
    by (auto simp: cell_at_def split: if_splits)
  then have "card ({a. a < length (heap s)} - set (cur # visited))
             < card ({a. a < length (heap s)} - set visited)"
    using 3(1) by (intro psubset_card_mono) auto
  then show ?case by simp
qed

declare CheckCircularDependency_bfs.simps [simp del]

definition CheckCircularDependency ::
  "'ast env \<Rightarrow> addr \<Rightarrow> Position list \<Rightarrow> 'ast Sheet \<Rightarrow> (bool, unit) result"
where
  "CheckCircularDependency env this new_refs s =
     (case CheckCircularDependency_seed env s this new_refs [] of
        Inl e \<Rightarrow> Raised e ()
      | Inr (True, queue) \<Rightarrow> Returned True ()
      | Inr (False, queue) \<Rightarrow>
          (case CheckCircularDependency_bfs s this queue [] of
             None \<Rightarrow> Undefined
           | Some b \<Rightarrow> Returned b ()))"

text \<open>\<^verbatim>\<open>Cell::UnsubscribeFromSources\<close>\<close>

fun UnsubscribeFromSources_loop :: "addr \<Rightarrow> addr list \<Rightarrow> 'ast Sheet \<Rightarrow> 'ast Sheet option" where
  "UnsubscribeFromSources_loop this [] s = Some s"
| "UnsubscribeFromSources_loop this (src # rest) s =
     (case cell_at s src of
        None \<Rightarrow> None
      | Some sc \<Rightarrow>
          UnsubscribeFromSources_loop this rest
            (put_cell src (sc\<lparr>dependent_cells := set_erase this (dependent_cells sc)\<rparr>) s))"

definition UnsubscribeFromSources :: "addr \<Rightarrow> 'ast Sheet \<Rightarrow> 'ast Sheet option" where
  "UnsubscribeFromSources this s =
     (case cell_at s this of
        None \<Rightarrow> None
      | Some c \<Rightarrow>
          (case UnsubscribeFromSources_loop this (source_cells c) s of
             None \<Rightarrow> None
           | Some s1 \<Rightarrow>
               (case cell_at s1 this of
                  None \<Rightarrow> None
                | Some c1 \<Rightarrow> Some (put_cell this (c1\<lparr>source_cells := []\<rparr>) s1))))"

text \<open>\<^verbatim>\<open>Cell::InvalidateCacheDownstream\<close>: depth first along \<^verbatim>\<open>dependent_cells_\<close>; the
  dependents are pushed in turn, so the last one is on top.\<close>

function InvalidateCacheDownstream_loop ::
  "addr list \<Rightarrow> addr list \<Rightarrow> 'ast Sheet \<Rightarrow> 'ast Sheet option"
where
  "InvalidateCacheDownstream_loop [] visited s = Some s"
| "InvalidateCacheDownstream_loop (cur # st) visited s =
     (if cur \<in> set visited then InvalidateCacheDownstream_loop st visited s
      else case cell_at s cur of
             None \<Rightarrow> None
           | Some c \<Rightarrow>
               InvalidateCacheDownstream_loop (rev (dependent_cells c) @ st) (cur # visited)
                 (put_cell cur (c\<lparr>impl := InvalidateCache (impl c)\<rparr>) s))"
  by pat_completeness auto
termination
proof (relation "measures [\<lambda>(st, visited, s). card ({a. a < length (heap s)} - set visited),
                           \<lambda>(st, visited, s). length st]", goal_cases)
  case 1
  then show ?case by simp
next
  case (2 cur st visited s)
  then show ?case by simp
next
  case (3 cur st visited s c)
  then have "cur < length (heap s)"
    by (auto simp: cell_at_def split: if_splits)
  then have "card ({a. a < length (heap s)} - set (cur # visited))
             < card ({a. a < length (heap s)} - set visited)"
    using 3(1) by (intro psubset_card_mono) auto
  then show ?case by (simp add: put_cell_def)
qed

declare InvalidateCacheDownstream_loop.simps [simp del]

definition InvalidateCacheDownstream :: "addr \<Rightarrow> 'ast Sheet \<Rightarrow> 'ast Sheet option" where
  "InvalidateCacheDownstream this s = InvalidateCacheDownstream_loop [this] [] s"

text \<open>The two inserts at the end of the loop of \<^verbatim>\<open>Cell::UpdateDependencies\<close>.\<close>

definition subscribe :: "addr \<Rightarrow> addr \<Rightarrow> 'ast Sheet \<Rightarrow> 'ast Sheet option" where
  "subscribe this src s =
     (case cell_at s this of
        None \<Rightarrow> None
      | Some c \<Rightarrow>
          (let s1 = put_cell this (c\<lparr>source_cells := set_insert src (source_cells c)\<rparr>) s
           in case cell_at s1 src of
                None \<Rightarrow> None
              | Some sc \<Rightarrow>
                  Some (put_cell src
                         (sc\<lparr>dependent_cells := set_insert this (dependent_cells sc)\<rparr>) s1)))"

text \<open>\<^verbatim>\<open>impl_ = ...\<close> on the cell \<open>this\<close>.\<close>

definition put_impl :: "addr \<Rightarrow> 'ast Impl \<Rightarrow> 'ast Sheet \<Rightarrow> 'ast Sheet" where
  "put_impl this i s =
     (case cell_at s this of None \<Rightarrow> s | Some c \<Rightarrow> put_cell this (c\<lparr>impl := i\<rparr>) s)"

text \<open>The \<^verbatim>\<open>if\<close> chain of \<^verbatim>\<open>Cell::Set\<close>: the new implementation and \<^verbatim>\<open>new_refs\<close>, or
  the exception of the parser or of the cycle check.  Before the new implementation is
  assigned, \<^verbatim>\<open>impl_\<close> is moved out; nothing in the chain reads it.\<close>

definition Set_new_impl ::
  "'ast env \<Rightarrow> addr \<Rightarrow> string \<Rightarrow> 'ast Sheet \<Rightarrow> ('ast Impl \<times> Position list, unit) result"
where
  "Set_new_impl env this text s =
     (if text \<noteq> [] \<and> hd text = FORMULA_SIGN \<and> length text > 1 then
        (case ParseFormula env (tl text) of
           Inl e \<Rightarrow> Raised e ()
         | Inr ast \<Rightarrow>
             (case CheckCircularDependency env this (Formula_GetReferencedCells env ast) s of
                Undefined \<Rightarrow> Undefined
              | Raised e u \<Rightarrow> Raised e ()
              | Returned cyclic u \<Rightarrow>
                  if cyclic
                  then Raised (CircularDependencyException ''Circular dependency detected'') ()
                  else Returned (FormulaImpl ast None, Formula_GetReferencedCells env ast) ()))
      else if text \<noteq> [] \<and> hd text = ESCAPE_SIGN then Returned (TextImpl text, []) ()
      else if text \<noteq> [] then Returned (TextImpl text, []) ()
      else Returned (EmptyImpl, []) ())"

text \<open>The \<^verbatim>\<open>catch\<close> clauses of \<^verbatim>\<open>Sheet::SetCell\<close>.\<close>

fun SetCell_rethrow :: "exn \<Rightarrow> exn" where
  "SetCell_rethrow (CircularDependencyException m) = CircularDependencyException m"
| "SetCell_rethrow (FormulaException m) = FormulaException m"
| "SetCell_rethrow (Thrown fe) = Thrown fe"
| "SetCell_rethrow e = FormulaException (''Unknown formula error: '' @ what e)"

text \<open>
  \<^verbatim>\<open>Sheet::SetCell\<close>, \<^verbatim>\<open>Cell::Set\<close> and \<^verbatim>\<open>Cell::UpdateDependencies\<close> call each other:
  a formula that refers to a position without a cell has the sheet create an empty cell
  there with \<^verbatim>\<open>sheet_.SetCell(pos, "")\<close>.  The recursion ends because an empty text has
  no references.
\<close>

function
  SetCell :: "'ast env \<Rightarrow> Position \<Rightarrow> string \<Rightarrow> 'ast Sheet \<Rightarrow> (unit, 'ast Sheet) result"
  and Cell_Set :: "'ast env \<Rightarrow> addr \<Rightarrow> string \<Rightarrow> 'ast Sheet \<Rightarrow> (unit, 'ast Sheet) result"
  and UpdateDependencies ::
    "'ast env \<Rightarrow> addr \<Rightarrow> Position list \<Rightarrow> 'ast Sheet \<Rightarrow> (unit, 'ast Sheet) result"
  and UpdateDependencies_loop ::
    "'ast env \<Rightarrow> addr \<Rightarrow> Position list \<Rightarrow> 'ast Sheet \<Rightarrow> (unit, 'ast Sheet) result"
where
  "SetCell env pos text s =
     (if \<not> IsValid (MAX_ROWS env) (MAX_COLS env) pos
      then Raised (InvalidPositionException ''Invalid position'') s
      else
        (case GetConcreteCell env pos (MaybeIncreaseSizeToIncludePosition pos s) of
           Inl e \<Rightarrow> Raised e (MaybeIncreaseSizeToIncludePosition pos s)
         | Inr found \<Rightarrow>
             (case (case found of
                      Some cell \<Rightarrow> (cell, MaybeIncreaseSizeToIncludePosition pos s)
                    | None \<Rightarrow> make_Cell pos (MaybeIncreaseSizeToIncludePosition pos s)) of
                (cell, s1) \<Rightarrow>
                  (case Cell_Set env cell text s1 of
                     Returned u s2 \<Rightarrow> Returned () s2
                   | Raised e s2 \<Rightarrow> Raised (SetCell_rethrow e) s2
                   | Undefined \<Rightarrow> Undefined))))"
| "Cell_Set env this text s =
     (case cell_at s this of
        None \<Rightarrow> Undefined
      | Some c \<Rightarrow>
          if text = Cell_GetText env c then Returned () s
          else
            (case Set_new_impl env this text s of
               Undefined \<Rightarrow> Undefined
             | Raised e u \<Rightarrow> Raised e (put_impl this (impl c) s)
             | Returned new u \<Rightarrow>
                 (case UpdateDependencies env this (snd new) (put_impl this (fst new) s) of
                    Undefined \<Rightarrow> Undefined
                  | Raised e s1 \<Rightarrow> Raised e (put_impl this (impl c) s1)
                  | Returned u1 s1 \<Rightarrow>
                      (case InvalidateCacheDownstream this s1 of
                         None \<Rightarrow> Undefined
                       | Some s2 \<Rightarrow> Returned () s2))))"
| "UpdateDependencies env this new_refs s =
     (case UnsubscribeFromSources this s of
        None \<Rightarrow> Undefined
      | Some s1 \<Rightarrow> UpdateDependencies_loop env this new_refs s1)"
| "UpdateDependencies_loop env this [] s = Returned () s"
| "UpdateDependencies_loop env this (pos # rest) s =
     (case GetCell env pos s of
        Inl e \<Rightarrow> Raised e s
      | Inr (Some src) \<Rightarrow>
          if src = this then UpdateDependencies_loop env this rest s
          else (case subscribe this src s of
                  None \<Rightarrow> Undefined
                | Some s2 \<Rightarrow> UpdateDependencies_loop env this rest s2)
      | Inr None \<Rightarrow>
          (case SetCell env pos [] s of
             Undefined \<Rightarrow> Undefined
           | Raised e s1 \<Rightarrow> Raised e s1
           | Returned u s1 \<Rightarrow>
               (case GetCell env pos s1 of
                  Inl e \<Rightarrow> Raised e s1
                | Inr None \<Rightarrow> UpdateDependencies_loop env this rest s1
                | Inr (Some src) \<Rightarrow>
                    if src = this then UpdateDependencies_loop env this rest s1
                    else (case subscribe this src s1 of
                            None \<Rightarrow> Undefined
                          | Some s2 \<Rightarrow> UpdateDependencies_loop env this rest s2))))"
  by pat_completeness auto
termination
proof (relation "inv_image (less_than <*lex*> less_than)
    (\<lambda>x. case x of
       Inl (Inl (env, pos, text, s)) \<Rightarrow> (if text = [] then 3 else 7, 0 :: nat)
     | Inl (Inr (env, this, text, s)) \<Rightarrow> (if text = [] then 2 else 6, 0)
     | Inr (Inl (env, this, refs, s)) \<Rightarrow> (if refs = [] then 1 else 5 :: nat, 0)
     | Inr (Inr (env, this, refs, s)) \<Rightarrow> (if refs = [] then 0 else 4, length refs))",
    goal_cases)
  case 1
  show ?case by (intro wf_inv_image wf_lex_prod wf_less_than)
next
  case 2
  then show ?case by simp
next
  case 3
  then show ?case by (auto simp: Set_new_impl_def split: if_splits)
qed auto

declare SetCell.simps [simp del] Cell_Set.simps [simp del] UpdateDependencies.simps [simp del]

text \<open>\<^verbatim>\<open>Cell::Clear\<close>\<close>

definition Clear :: "'ast env \<Rightarrow> addr \<Rightarrow> 'ast Sheet \<Rightarrow> (unit, 'ast Sheet) result" where
  "Clear env this s =
     (case Cell_Set env this [] s of
        Undefined \<Rightarrow> Undefined
      | Raised e s1 \<Rightarrow> Raised e s1
      | Returned u s1 \<Rightarrow>
          (case UnsubscribeFromSources this s1 of
             None \<Rightarrow> Undefined
           | Some s2 \<Rightarrow>
               (case InvalidateCacheDownstream this s2 of
                  None \<Rightarrow> Undefined
                | Some s3 \<Rightarrow> Returned () s3)))"

text \<open>\<^verbatim>\<open>cells_[pos.row][pos.col].reset()\<close>: the cell is destroyed, its address is empty
  from now on.\<close>

definition reset_Cell :: "Position \<Rightarrow> addr \<Rightarrow> 'ast Sheet \<Rightarrow> 'ast Sheet" where
  "reset_Cell pos cell s =
     s\<lparr>cells := (cells s)[nat (row pos) := (cells s ! nat (row pos))[nat (col pos) := None]],
       heap := (heap s)[cell := None]\<rparr>"

definition ClearCell :: "'ast env \<Rightarrow> Position \<Rightarrow> 'ast Sheet \<Rightarrow> (unit, 'ast Sheet) result" where
  "ClearCell env pos s =
     (case GetConcreteCell env pos s of
        Inl e \<Rightarrow> Raised e s
      | Inr None \<Rightarrow> Returned () s
      | Inr (Some cell) \<Rightarrow>
          (case cell_at s cell of
             None \<Rightarrow> Undefined
           | Some c \<Rightarrow>
               if IsReferenced c then Clear env cell s
               else Returned () (reset_Cell pos cell s)))"

section \<open>Values of cells (cell.cpp, formula.cpp)\<close>

text \<open>Running an execution of the parser's tree against a resolver that works on the
  state \<open>'s\<close>.  \<open>None\<close> is a resolver that does not return.\<close>

primrec run_evaluation ::
  "evaluation \<Rightarrow> (Position \<Rightarrow> 's \<Rightarrow> (double, 's) result option) \<Rightarrow> 's
   \<Rightarrow> (double, 's) result option"
where
  "run_evaluation (Done d) resolver s = Some (Returned d s)"
| "run_evaluation (Throws fe) resolver s = Some (Raised (Thrown fe) s)"
| "run_evaluation (Ask pos k) resolver s =
     (case resolver pos s of
        None \<Rightarrow> None
      | Some Undefined \<Rightarrow> Some Undefined
      | Some (Raised e s1) \<Rightarrow> Some (Raised e s1)
      | Some (Returned d s1) \<Rightarrow> run_evaluation (k d) resolver s1)"

text \<open>The lambda \<^verbatim>\<open>get_cell_value\<close> of \<^verbatim>\<open>Formula::Evaluate\<close>; \<open>cell_GetValue\<close> is
  \<^verbatim>\<open>cell->GetValue()\<close>.\<close>

definition get_cell_value ::
  "'ast env \<Rightarrow> (addr \<Rightarrow> 'ast Sheet \<Rightarrow> (CellValue, 'ast Sheet) result option)
   \<Rightarrow> Position \<Rightarrow> 'ast Sheet \<Rightarrow> (double, 'ast Sheet) result option"
where
  "get_cell_value env cell_GetValue pos s =
     (case GetCell env pos s of
        Inl e \<Rightarrow> Some (Raised e s)
      | Inr None \<Rightarrow> Some (Returned 0 s)
      | Inr (Some cell) \<Rightarrow>
          (case cell_GetValue cell s of
             None \<Rightarrow> None
           | Some Undefined \<Rightarrow> Some Undefined
           | Some (Raised e s1) \<Rightarrow> Some (Raised e s1)
           | Some (Returned val s1) \<Rightarrow>
               (case val of
                  VDouble d \<Rightarrow> Some (Returned d s1)
                | VError fe \<Rightarrow> Some (Raised (Thrown fe) s1)
                | VString str \<Rightarrow>
                    if str = [] then Some (Returned 0 s1)
                    else (case std_stod str of
                            stod_value d idx \<Rightarrow>
                              if idx = length str then Some (Returned d s1)
                              else Some (Raised (Thrown (FormulaError Value)) s1)
                          | stod_invalid_argument \<Rightarrow>
                              Some (Raised (Thrown (FormulaError Value)) s1)
                          | stod_out_of_range \<Rightarrow>
                              Some (Raised (Thrown (FormulaError Arithmetic)) s1)))))"

text \<open>\<^verbatim>\<open>Formula::Evaluate\<close>: a thrown \<^verbatim>\<open>FormulaError\<close> is returned as a value.\<close>

definition Evaluate ::
  "'ast env \<Rightarrow> 'ast \<Rightarrow> (Position \<Rightarrow> 'ast Sheet \<Rightarrow> (double, 'ast Sheet) result option)
   \<Rightarrow> 'ast Sheet \<Rightarrow> (FormulaError + double, 'ast Sheet) result option"
where
  "Evaluate env ast resolver s =
     (case run_evaluation (Execute env ast) resolver s of
        None \<Rightarrow> None
      | Some Undefined \<Rightarrow> Some Undefined
      | Some (Returned d s1) \<Rightarrow> Some (Returned (Inr d) s1)
      | Some (Raised (Thrown fe) s1) \<Rightarrow> Some (Returned (Inl fe) s1)
      | Some (Raised e s1) \<Rightarrow> Some (Raised e s1))"

text \<open>\<^verbatim>\<open>Cell::GetValue\<close>.  A formula without a cached value evaluates its tree, which
  reads the values of other cells; the first argument bounds the depth of that recursion,
  and \<open>None\<close> is a depth that does not suffice.\<close>

primrec Cell_GetValue ::
  "nat \<Rightarrow> 'ast env \<Rightarrow> addr \<Rightarrow> 'ast Sheet \<Rightarrow> (CellValue, 'ast Sheet) result option"
where
  "Cell_GetValue 0 env this s = None"
| "Cell_GetValue (Suc depth) env this s =
     (case cell_at s this of
        None \<Rightarrow> Some Undefined
      | Some c \<Rightarrow>
          (case impl c of
             EmptyImpl \<Rightarrow> Some (Returned (VDouble 0) s)
           | TextImpl text \<Rightarrow> Some (Returned (TextImpl_GetValue text) s)
           | FormulaImpl ast cache \<Rightarrow>
               (case cache of
                  Some v \<Rightarrow> Some (Returned v s)
                | None \<Rightarrow>
                    (case Evaluate env ast (get_cell_value env (Cell_GetValue depth env)) s of
                       None \<Rightarrow> None
                     | Some Undefined \<Rightarrow> Some Undefined
                     | Some (Raised e s1) \<Rightarrow> Some (Raised e s1)
                     | Some (Returned (Inr d) s1) \<Rightarrow>
                         Some (Returned (VDouble d)
                                 (put_impl this (FormulaImpl ast (Some (VDouble d))) s1))
                     | Some (Returned (Inl fe) s1) \<Rightarrow>
                         Some (Returned (VError fe)
                                 (put_impl this (FormulaImpl ast (Some (VError fe))) s1))))))"

section \<open>Printing (sheet.cpp)\<close>

datatype Size = Size (rows: int) (cols: int)

text \<open>The test \<^verbatim>\<open>cells_[row][col] && !cells_[row][col]->GetText().empty()\<close>.  A slot of
  \<^verbatim>\<open>cells_\<close> owns its cell, so its address is allocated.\<close>

definition has_text :: "'ast env \<Rightarrow> 'ast Sheet \<Rightarrow> nat \<Rightarrow> nat \<Rightarrow> bool" where
  "has_text env s r c =
     (case cells s ! r ! c of
        None \<Rightarrow> False
      | Some a \<Rightarrow> (case cell_at s a of None \<Rightarrow> False | Some cl \<Rightarrow> Cell_GetText env cl \<noteq> []))"

definition GetActualSize :: "'ast env \<Rightarrow> 'ast Sheet \<Rightarrow> Size" where
  "GetActualSize env s =
     (case fold (\<lambda>r acc. fold (\<lambda>c (max_row, max_col).
                     if has_text env s r c then (max max_row (int r), max max_col (int c))
                     else (max_row, max_col))
                   [0..<length (cells s ! r)] acc)
             [0..<length (cells s)] (- 1, - 1) of
        (max_row, max_col) \<Rightarrow>
          Size (if max_row \<ge> 0 then max_row + 1 else 0) (if max_col \<ge> 0 then max_col + 1 else 0))"

definition GetPrintableSize :: "'ast env \<Rightarrow> 'ast Sheet \<Rightarrow> Size" where
  "GetPrintableSize env s = GetActualSize env s"





definition PrintTexts_cell ::
  "'ast env \<Rightarrow> addr \<Rightarrow> 'ast Sheet \<Rightarrow> (string, 'ast Sheet) result option"
where
  "PrintTexts_cell env a s =
     (case cell_at s a of
        None \<Rightarrow> Some Undefined
      | Some cl \<Rightarrow> Some (Returned (Cell_GetText env cl) s))"



section \<open>The invariants of the specification\<close>

text \<open>Edge symmetry: every source of an allocated cell is allocated and lists the cell
  among its dependents, and every dependent of an allocated cell is allocated and lists
  the cell among its sources.\<close>

definition edge_symmetry :: "'ast Sheet \<Rightarrow> bool" where
  "edge_symmetry s =
     list_all (\<lambda>a. case cell_at s a of
                 None \<Rightarrow> True
               | Some c \<Rightarrow>
                   list_all (\<lambda>src. case cell_at s src of
                               None \<Rightarrow> False
                             | Some sc \<Rightarrow> a \<in> set (dependent_cells sc)) (source_cells c)
                   \<and> list_all (\<lambda>d. case cell_at s d of
                               None \<Rightarrow> False
                             | Some dc \<Rightarrow> a \<in> set (source_cells dc)) (dependent_cells c))
       [0..<length (heap s)]"

text \<open>The state a call leaves behind, if it leaves one.\<close>

fun state_of :: "('a, 's) result \<Rightarrow> 's option" where
  "state_of (Returned v s) = Some s"
| "state_of (Raised e s) = Some s"
| "state_of Undefined = None"

text \<open>The pointer at a row and a column of \<^verbatim>\<open>cells_\<close>, null outside the vectors.\<close>

definition slot :: "'a option list list \<Rightarrow> nat \<Rightarrow> nat \<Rightarrow> 'a option" where
  "slot cs r c = (if r < length cs \<and> c < length (cs ! r) then cs ! r ! c else None)"

text \<open>From \<open>s\<close> to \<open>s'\<close> no cell is removed: a position that had a cell has the same
  cell, and an allocated address stays allocated.\<close>

definition keeps_cells :: "'ast env \<Rightarrow> 'ast Sheet \<Rightarrow> 'ast Sheet \<Rightarrow> bool" where
  "keeps_cells env s s' \<longleftrightarrow>
     (\<forall>p a. GetCell env p s = Inr (Some a) \<longrightarrow> GetCell env p s' = Inr (Some a))
     \<and> (\<forall>a. cell_at s a \<noteq> None \<longrightarrow> cell_at s' a \<noteq> None)"

text \<open>The graph of source edges, the existing cells at the positions a new formula refers
  to, and what is reachable from them along source edges.\<close>

definition source_edge :: "'ast Sheet \<Rightarrow> (addr \<times> addr) set" where
  "source_edge s = {(a, b). \<exists>c. cell_at s a = Some c \<and> b \<in> set (source_cells c)}"

definition proposed_sources :: "'ast env \<Rightarrow> 'ast Sheet \<Rightarrow> Position list \<Rightarrow> addr set" where
  "proposed_sources env s refs = {a. \<exists>p \<in> set refs. GetCell env p s = Inr (Some a)}"

definition sources_closure :: "'ast env \<Rightarrow> 'ast Sheet \<Rightarrow> Position list \<Rightarrow> addr set" where
  "sources_closure env s refs = (source_edge s)\<^sup>* `` proposed_sources env s refs"

text \<open>No pointer that the cycle check follows is dangling: the cells of the grid and the
  sources of every cell are allocated.\<close>

definition no_dangling_source :: "'ast Sheet \<Rightarrow> bool" where
  "no_dangling_source s \<longleftrightarrow>
     list_all (\<lambda>p. case p of None \<Rightarrow> True | Some a \<Rightarrow> cell_at s a \<noteq> None) (concat (cells s))
     \<and> list_all (\<lambda>a. case cell_at s a of
                      None \<Rightarrow> True
                    | Some c \<Rightarrow> list_all (\<lambda>src. cell_at s src \<noteq> None) (source_cells c))
         [0..<length (heap s)]"

section \<open>The layout of the printed sheet\<close>



definition printed_field ::
  "'ast env \<Rightarrow> (addr \<Rightarrow> 'ast Sheet \<Rightarrow> (string, 'ast Sheet) result option) \<Rightarrow> nat \<Rightarrow> nat
   \<Rightarrow> 'ast Sheet \<Rightarrow> (string \<times> 'ast Sheet) option"
where
  "printed_field env printCell r c s =
     (case slot (cells s) r c of
        None \<Rightarrow> Some ([], s)
      | Some a \<Rightarrow>
          (case cell_at s a of
             None \<Rightarrow> Some ([], s)
           | Some cl \<Rightarrow>
               if Cell_GetText env cl \<noteq> [] then
                 (case printCell a s of
                    Some (Returned written s1) \<Rightarrow> Some (written, s1)
                  | _ \<Rightarrow> None)
               else Some ([], s)))"



text \<open>The text at a row and a column, empty where there is no cell.\<close>

definition text_field :: "'ast env \<Rightarrow> 'ast Sheet \<Rightarrow> nat \<Rightarrow> nat \<Rightarrow> string" where
  "text_field env s r c =
     (case slot (cells s) r c of
        None \<Rightarrow> []
      | Some a \<Rightarrow> (case cell_at s a of None \<Rightarrow> [] | Some cl \<Rightarrow> Cell_GetText env cl))"


section \<open>Sheets whose values can be read\<close>

text \<open>Every position that the execution asks the resolver for, whatever the answers, is
  in \<open>P\<close>.\<close>

primrec asks_within :: "Position set \<Rightarrow> evaluation \<Rightarrow> bool" where
  "asks_within P (Done d) = True"
| "asks_within P (Throws fe) = True"
| "asks_within P (Ask pos k) = (pos \<in> P \<and> (\<forall>d. asks_within P (k d)))"

text \<open>
  The formulas of the sheet read in the order of \<open>rank\<close>: every position that the
  execution of a formula asks for is valid and has no cell, or a cell that is allocated
  and of a lower rank than the cell of the formula.  Such a rank exists when the source
  edges have no cycle and no grid slot dangles.
\<close>

definition readable :: "'ast env \<Rightarrow> 'ast Sheet \<Rightarrow> (addr \<Rightarrow> nat) \<Rightarrow> bool" where
  "readable env s rank \<longleftrightarrow>
     (\<forall>a c ast cache. cell_at s a = Some c \<longrightarrow> impl c = FormulaImpl ast cache \<longrightarrow>
        asks_within {pos. case GetCell env pos s of
                            Inl e \<Rightarrow> False
                          | Inr None \<Rightarrow> True
                          | Inr (Some b) \<Rightarrow> cell_at s b \<noteq> None \<and> rank b < rank a}
          (Execute env ast))"

text \<open>The sheet without the values that its formulas have cached.\<close>

definition without_memos :: "'ast Sheet \<Rightarrow> 'ast Sheet" where
  "without_memos s =
     s\<lparr>heap := map (map_option (\<lambda>c. c\<lparr>impl := InvalidateCache (impl c)\<rparr>)) (heap s)\<rparr>"

section \<open>Relations between the states of an edit\<close>

text \<open>From \<open>s\<close> to \<open>s'\<close> the grid is the same and every allocated cell \<open>c\<close> at an
  address \<open>a\<close> has become \<open>f a c\<close>; nothing was allocated or destroyed.\<close>

definition cells_mapped ::
  "(addr \<Rightarrow> 'ast Cell \<Rightarrow> 'ast Cell) \<Rightarrow> 'ast Sheet \<Rightarrow> 'ast Sheet \<Rightarrow> bool"
where
  "cells_mapped f s s' \<longleftrightarrow>
     cells s' = cells s \<and> length (heap s') = length (heap s)
     \<and> (\<forall>a. cell_at s' a = map_option (f a) (cell_at s a))"

text \<open>What the steps of \<^verbatim>\<open>Cell::Set\<close> after the assignment of \<^verbatim>\<open>impl_\<close> leave alone: the
  cell \<open>this\<close> stays allocated, the positions that resolve to a cell resolve as before or
  to a cell made since, an allocated cell keeps its implementation up to the memo, its
  dependents other than \<open>this\<close> and, if it is not \<open>this\<close>, its sources, and a cell made
  since is empty, has no sources and no dependent other than \<open>this\<close>.\<close>

definition grows :: "'ast env \<Rightarrow> addr \<Rightarrow> 'ast Sheet \<Rightarrow> 'ast Sheet \<Rightarrow> bool" where
  "grows env this s s' \<longleftrightarrow>
     cell_at s this \<noteq> None
     \<and> length (heap s) \<le> length (heap s')
     \<and> (\<forall>p a. GetCell env p s' = Inr (Some a) \<longrightarrow>
          GetCell env p s = Inr (Some a) \<or> (length (heap s) \<le> a \<and> cell_at s' a \<noteq> None))
     \<and> (\<forall>a c. cell_at s a = Some c \<longrightarrow>
          (\<exists>c'. cell_at s' a = Some c'
             \<and> (impl c' = impl c \<or> impl c' = InvalidateCache (impl c))
             \<and> (a \<noteq> this \<longrightarrow> source_cells c' = source_cells c)
             \<and> set (dependent_cells c') - {this} = set (dependent_cells c) - {this}))
     \<and> (\<forall>a c'. cell_at s a = None \<longrightarrow> cell_at s' a = Some c' \<longrightarrow>
          length (heap s) \<le> a \<and> source_cells c' = [] \<and> impl c' = EmptyImpl
          \<and> set (dependent_cells c') \<subseteq> {this})"

text \<open>The cell \<open>this\<close> is subscribed to exactly the cells of \<open>L\<close>: they are its sources,
  each of them has it as the last of its dependents, once, and no other cell has it among
  its dependents.\<close>

definition subscribed :: "addr \<Rightarrow> addr list \<Rightarrow> 'ast Sheet \<Rightarrow> bool" where
  "subscribed this L s \<longleftrightarrow>
     this \<notin> set L
     \<and> (\<exists>c. cell_at s this = Some c \<and> source_cells c = L)
     \<and> (\<forall>x \<in> set L. \<exists>cx xs. cell_at s x = Some cx
            \<and> dependent_cells cx = xs @ [this] \<and> this \<notin> set xs)
     \<and> (\<forall>x cx. cell_at s x = Some cx \<longrightarrow> x \<notin> set L \<longrightarrow> this \<notin> set (dependent_cells cx))"

text \<open>The backward half of edge symmetry at one cell: every cell that has \<open>this\<close> among
  its dependents is among the sources of \<open>this\<close>.\<close>

definition dependent_only_of_sources :: "addr \<Rightarrow> 'ast Sheet \<Rightarrow> bool" where
  "dependent_only_of_sources this s =
     (case cell_at s this of
        None \<Rightarrow> True
      | Some c \<Rightarrow>
          list_all (\<lambda>x. case cell_at s x of
                      None \<Rightarrow> True
                    | Some cx \<Rightarrow> this \<in> set (dependent_cells cx) \<longrightarrow> x \<in> set (source_cells c))
            [0..<length (heap s)])"

section \<open>The numbers and the reads of the specification\<close>

text \<open>
  The specification's strict full-string decimal parse: the whole text is a decimal
  number and nothing else, that is an optional sign, decimal digits with an optional
  point, and an optional decimal exponent.
\<close>

definition strict_decimal :: "string \<Rightarrow> double option" where
  "strict_decimal str =
     (let signed = (str \<noteq> [] \<and> (hd str = CHR ''-'' \<or> hd str = CHR ''+''));
          r = (if signed then tl str else str)
      in case number_subject isdigit decimal 10 (CHR ''e'') 10 r of
           None \<Rightarrow> None
         | Some (v, n) \<Rightarrow>
             if n = length r then Some (if signed \<and> hd str = CHR ''-'' then - v else v)
             else None)"


section \<open>A parser for the examples\<close>

text \<open>
  The examples need a parser.  Its formulas are sums of cell labels: \<^verbatim>\<open>A1+B2\<close> parses
  to the list of the two positions, is printed back from the positions, refers to them
  and evaluates to the sum of their values.
\<close>

fun split_plus :: "string \<Rightarrow> string list" where
  "split_plus [] = [[]]"
| "split_plus (c # cs) =
     (if c = CHR ''+'' then [] # split_plus cs
      else (case split_plus cs of w # ws \<Rightarrow> (c # w) # ws | [] \<Rightarrow> [[c]]))"

fun example_Execute :: "Position list \<Rightarrow> double \<Rightarrow> evaluation" where
  "example_Execute [] acc = Done acc"
| "example_Execute (p # ps) acc = Ask p (\<lambda>d. example_Execute ps (acc + d))"

definition example_env :: "Position list env" where
  "example_env = \<lparr>
     MAX_ROWS = 16384,
     MAX_COLS = 16384,
     ParseFormulaAST = (\<lambda>expr.
       if NONE \<in> set (map (FromString 16384 16384) (split_plus expr))
       then Inl (FormulaException ''syntax error'')
       else Inr (map (FromString 16384 16384) (split_plus expr))),
     Execute = (\<lambda>ps. example_Execute ps 0),
     PrintFormula = (\<lambda>ps. concat (map (\<lambda>p. ToString 16384 16384 p @ ''+'') (butlast ps))
                            @ ToString 16384 16384 (last ps)),
     ast_GetReferencedCells = (\<lambda>ps. ps) \<rparr>"

definition A1 :: Position where
  "A1 = Position 0 0"

definition A2 :: Position where
  "A2 = Position 1 0"

definition B1 :: Position where
  "B1 = Position 0 1"

definition B2 :: Position where
  "B2 = Position 1 1"


text \<open>The sheet after \<^verbatim>\<open>SetCell(A1, "=B1")\<close> on a new sheet: the formula at address 0,
  the empty cell \<^verbatim>\<open>B1\<close> it made at address 1.\<close>

definition A1_reads_B1 :: "Position list Sheet" where
  "A1_reads_B1 =
     \<lparr>cells = [[Some 0, Some 1]],
      heap = [Some \<lparr>impl = FormulaImpl [Position 0 1] None, source_cells = [1],
                     dependent_cells = []\<rparr>,
              Some \<lparr>impl = EmptyImpl, source_cells = [], dependent_cells = [0]\<rparr>]\<rparr>"

text \<open>The new sheet after \<^verbatim>\<open>SetCell(B2, "")\<close>.\<close>

definition B2_empty :: "Position list Sheet" where
  "B2_empty = \<lparr>cells = [[None, None], [None, Some 0]],
                heap = [Some \<lparr>impl = EmptyImpl, source_cells = [], dependent_cells = []\<rparr>]\<rparr>"

text \<open>That sheet after \<^verbatim>\<open>SetCell(A1, "=B1+B2")\<close>.\<close>

definition A1_sums_B1_B2 :: "Position list Sheet" where
  "A1_sums_B1_B2 =
     \<lparr>cells = [[Some 1, Some 2], [None, Some 0]],
      heap = [Some \<lparr>impl = EmptyImpl, source_cells = [], dependent_cells = [1]\<rparr>,
              Some \<lparr>impl = FormulaImpl [Position 0 1, Position 1 1] None,
                     source_cells = [2, 0], dependent_cells = []\<rparr>,
              Some \<lparr>impl = EmptyImpl, source_cells = [], dependent_cells = [1]\<rparr>]\<rparr>"

text \<open>The example sheet after its values were printed: the formula in \<^verbatim>\<open>B1\<close> has cached
  its value.\<close>

definition example_sheet_evaluated :: "Position list Sheet" where
  "example_sheet_evaluated =
     \<lparr>cells = [[Some 0, Some 1, Some 2, Some 3]],
      heap = [Some \<lparr>impl = TextImpl ''12x'', source_cells = [], dependent_cells = [1]\<rparr>,
              Some \<lparr>impl = FormulaImpl [Position 0 0] (Some (VError (FormulaError Value))),
                     source_cells = [0], dependent_cells = []\<rparr>,
              Some \<lparr>impl = EmptyImpl, source_cells = [], dependent_cells = []\<rparr>,
              Some \<lparr>impl = TextImpl ''12'', source_cells = [], dependent_cells = []\<rparr>]\<rparr>"

text \<open>The evaluated example sheet after \<^verbatim>\<open>Set("=A01+C1")\<close> on the cell \<^verbatim>\<open>D1\<close>: \<^verbatim>\<open>D1\<close>
  is subscribed to \<^verbatim>\<open>A1\<close> and \<^verbatim>\<open>C1\<close>, the memo of \<^verbatim>\<open>B1\<close> is still there.\<close>

definition D1_sums_A1_C1 :: "Position list Sheet" where
  "D1_sums_A1_C1 =
     \<lparr>cells = [[Some 0, Some 1, Some 2, Some 3]],
      heap = [Some \<lparr>impl = TextImpl ''12x'', source_cells = [], dependent_cells = [1, 3]\<rparr>,
              Some \<lparr>impl = FormulaImpl [Position 0 0] (Some (VError (FormulaError Value))),
                     source_cells = [0], dependent_cells = []\<rparr>,
              Some \<lparr>impl = EmptyImpl, source_cells = [], dependent_cells = [3]\<rparr>,
              Some \<lparr>impl = FormulaImpl [Position 0 0, Position 0 2] None,
                     source_cells = [0, 2], dependent_cells = []\<rparr>]\<rparr>"

text \<open>The new sheet after \<^verbatim>\<open>SetCell(A1, "0x10")\<close>, \<^verbatim>\<open>SetCell(B1, " 12")\<close> and
  \<^verbatim>\<open>SetCell(C1, "=A1+B1")\<close>.\<close>

definition hexadecimal_sheet :: "Position list Sheet" where
  "hexadecimal_sheet =
     \<lparr>cells = [[Some 0, Some 1, Some 2]],
      heap = [Some \<lparr>impl = TextImpl ''0x10'', source_cells = [], dependent_cells = [2]\<rparr>,
              Some \<lparr>impl = TextImpl '' 12'', source_cells = [], dependent_cells = [2]\<rparr>,
              Some \<lparr>impl = FormulaImpl [Position 0 0, Position 0 1] None,
                     source_cells = [0, 1], dependent_cells = []\<rparr>]\<rparr>"

text \<open>The new sheet after \<^verbatim>\<open>SetCell(A1, "a\tb")\<close> and \<^verbatim>\<open>SetCell(B1, "c")\<close>: the text of
  \<^verbatim>\<open>A1\<close> has a tab between its two letters.\<close>

definition tab_sheet :: "Position list Sheet" where
  "tab_sheet =
     \<lparr>cells = [[Some 0, Some 1]],
      heap = [Some \<lparr>impl = TextImpl [CHR ''a'', CHR 0x09, CHR ''b''], source_cells = [],
                     dependent_cells = []\<rparr>,
              Some \<lparr>impl = TextImpl ''c'', source_cells = [], dependent_cells = []\<rparr>]\<rparr>"

text \<open>One call after another: the second runs on the state the first returns.\<close>

fun and_then :: "(unit, 's) result \<Rightarrow> ('s \<Rightarrow> (unit, 's) result) \<Rightarrow> (unit, 's) result" where
  "and_then (Returned u s) f = f s"
| "and_then (Raised e s) f = Raised e s"
| "and_then Undefined f = Undefined"

section \<open>Position codec: round trip\<close>

lemma int32_id: "- (2 ^ 31) \<le> x \<Longrightarrow> x < 2 ^ 31 \<Longrightarrow> int32 x = x"
  by (simp add: int32_def)

lemma count_letters_takeWhile:
  "n \<le> length str \<Longrightarrow>
   count_letters str n =
     (if list_all isupper (takeWhile isalpha (drop n str))
      then Some (n + length (takeWhile isalpha (drop n str))) else None)"
proof (induction str n rule: count_letters.induct)
  case (1 str n)
  show ?case
  proof (cases "n < length str \<and> isalpha (str ! n)")
    case True
    then have d: "drop n str = str ! n # drop (Suc n) str"
      by (simp add: Cons_nth_drop_Suc)
    show ?thesis
    proof (cases "isupper (str ! n)")
      case u: True
      with True 1 d show ?thesis
        by (subst count_letters.simps) simp
    next
      case False
      with True d show ?thesis
        by (subst count_letters.simps) simp
    qed
  next
    case False
    have "takeWhile isalpha (drop n str) = []"
    proof (cases "n < length str")
      case True
      then have "drop n str = str ! n # drop (Suc n) str"
        by (simp add: Cons_nth_drop_Suc)
      with False True show ?thesis by simp
    next
      case False
      then show ?thesis by simp
    qed
    with False show ?thesis
      by (subst count_letters.simps) auto
  qed
qed

lemma decimal_snoc: "decimal (ds @ [c]) = decimal ds * 10 + (of_char c - 48)"
  by (simp add: decimal_def)

lemma decimal_nonneg: "list_all isdigit ds \<Longrightarrow> 0 \<le> decimal ds"
  by (induction ds rule: rev_induct) (auto simp: decimal_snoc isdigit_def decimal_def)

lemma parse_row_snoc:
  "parse_row (ds @ [c]) = int32 (int32 (parse_row ds * 10) + (of_char c - 48))"
  by (simp add: parse_row_def)

lemma parse_row_decimal:
  "list_all isdigit ds \<Longrightarrow> decimal ds < 2 ^ 31 \<Longrightarrow> parse_row ds = decimal ds"
proof (induction ds rule: rev_induct)
  case Nil
  then show ?case by (simp add: parse_row_def decimal_def)
next
  case (snoc c ds)
  from snoc.prems have dg: "list_all isdigit ds" and c: "isdigit c" by auto
  have nn: "0 \<le> decimal ds" using dg by (rule decimal_nonneg)
  have cv: "0 \<le> (of_char c :: int) - 48" "(of_char c :: int) - 48 \<le> 9"
    using c by (auto simp: isdigit_def)
  have lt: "decimal ds * 10 + (of_char c - 48) < 2 ^ 31"
    using snoc.prems(2) by (simp add: decimal_snoc)
  then have "decimal ds < 2 ^ 31" using nn cv by linarith
  then have ih: "parse_row ds = decimal ds" using snoc.IH dg by simp
  have a: "int32 (decimal ds * 10) = decimal ds * 10"
    using nn lt cv by (intro int32_id) linarith+
  have b: "int32 (decimal ds * 10 + (of_char c - 48)) = decimal ds * 10 + (of_char c - 48)"
    using nn lt cv by (intro int32_id) linarith+
  show ?case
    by (simp add: parse_row_snoc ih a b decimal_snoc)
qed

lemma of_char_char_of_nat: "k < 256 \<Longrightarrow> (of_char (char_of (k::nat)) :: int) = int k"
proof -
  assume "k < 256"
  then have "(of_char (char_of k) :: nat) = k" by simp
  then have "int (of_char (char_of k) :: nat) = int k" by simp
  then show ?thesis by (simp only: of_nat_of_char)
qed

lemma char_of_48: "char_of (48::nat) = CHR ''0''"
  by code_simp

lemma isdigit_char_of: "k < 10 \<Longrightarrow> isdigit (char_of (48 + k :: nat))"
  by (simp add: isdigit_def of_char_char_of_nat)

lemma digit_val_char_of: "k < 10 \<Longrightarrow> (of_char (char_of (48 + k :: nat)) :: int) - 48 = int k"
  by (simp add: of_char_char_of_nat)

lemma digits10_isdigit: "list_all isdigit (digits10 n)"
proof (induction n rule: digits10.induct)
  case (1 n)
  have m: "n mod 10 < 10" by simp
  show ?case
  proof (cases "n < 10")
    case True
    then show ?thesis
      by (subst digits10.simps) (simp add: isdigit_char_of)
  next
    case False
    with 1 show ?thesis
      by (subst digits10.simps) (simp add: isdigit_char_of [OF m])
  qed
qed

lemma digits10_nonempty: "digits10 n \<noteq> []"
  by (subst digits10.simps) simp

lemma decimal_digits10: "decimal (digits10 n) = int n"
proof (induction n rule: digits10.induct)
  case (1 n)
  have m: "n mod 10 < 10" by simp
  show ?case
  proof (cases "n < 10")
    case True
    then show ?thesis
      by (subst digits10.simps) (simp add: decimal_def digit_val_char_of)
  next
    case False
    with 1 have "decimal (digits10 (n div 10)) = int (n div 10)" by simp
    with False show ?thesis
      by (subst digits10.simps) (simp add: decimal_snoc digit_val_char_of [OF m] zdiv_int zmod_int)
  qed
qed

lemma length_digits10: "n < 10 ^ k \<Longrightarrow> 0 < k \<Longrightarrow> length (digits10 n) \<le> k"
proof (induction n arbitrary: k rule: digits10.induct)
  case (1 n)
  show ?case
  proof (cases "n < 10")
    case True
    with 1(3) show ?thesis
      by (subst digits10.simps) simp
  next
    case False
    obtain j where k: "k = Suc j" using 1(3) by (cases k) auto
    have "j \<noteq> 0" using False 1(2) k by (cases j) auto
    moreover have "n div 10 < 10 ^ j" using 1(2) k by (simp add: less_mult_imp_div_less mult.commute)
    ultimately have "length (digits10 (n div 10)) \<le> j" using 1(1) [OF False, of j] by simp
    with False k show ?thesis
      by (subst digits10.simps) simp
  qed
qed

lemma digits10_decimal:
  "ds \<noteq> [] \<Longrightarrow> list_all isdigit ds \<Longrightarrow> hd ds \<noteq> CHR ''0'' \<Longrightarrow> digits10 (nat (decimal ds)) = ds"
proof (induction ds rule: rev_induct)
  case Nil
  then show ?case by simp
next
  case (snoc c ds)
  from snoc.prems have dg: "list_all isdigit ds" and c: "isdigit c" by auto
  define d where "d = nat (of_char c - 48)"
  have cv: "(of_char c :: int) - 48 = int d" "d < 10"
    using c by (auto simp: isdigit_def d_def)
  have cc: "char_of (48 + d) = c"
  proof -
    have "48 + d = (of_char c :: nat)"
      using c unfolding d_def isdigit_def
      by (metis cv(1) d_def add.commute diff_add_cancel nat_int of_nat_add of_nat_numeral of_nat_of_char)
    then show ?thesis by simp
  qed
  show ?case
  proof (cases "ds = []")
    case True
    then have "decimal (ds @ [c]) = int d" by (simp add: decimal_def cv)
    then show ?thesis using True cv cc
      by (subst digits10.simps) simp
  next
    case False
    then have h: "hd ds \<noteq> CHR ''0''" using snoc.prems(3) by simp
    have ih: "digits10 (nat (decimal ds)) = ds" using snoc.IH False dg h by simp
    have nn: "0 \<le> decimal ds" using dg by (rule decimal_nonneg)
    have pos: "decimal ds \<noteq> 0"
    proof
      assume z: "decimal ds = 0"
      then have "digits10 0 = ds" using ih by simp
      then have "ds = [CHR ''0'']" by (subst (asm) digits10.simps) (auto simp: char_of_48)
      with h show False by simp
    qed
    define v where "v = nat (decimal ds)"
    have v: "decimal ds = int v" "0 < v" using nn pos by (auto simp: v_def)
    have n: "nat (decimal (ds @ [c])) = v * 10 + d"
      by (simp add: decimal_snoc cv v nat_add_distrib nat_mult_distrib)
    have "digits10 (v * 10 + d) = digits10 v @ [char_of (48 + d)]"
      using v(2) cv(2) by (subst digits10.simps) simp
    then show ?thesis using n ih cc by (simp add: v_def)
  qed
qed


lemma ToString_letters_acc: "ToString_letters c acc = ToString_letters c [] @ acc"
proof (induction "nat (c + 1)" arbitrary: c acc rule: less_induct)
  case less
  show ?case
  proof (cases "c \<ge> 0")
    case True
    then have lt: "nat (c div 26 - 1 + 1) < nat (c + 1)" by simp
    have a: "ToString_letters c acc
             = ToString_letters (c div 26 - 1) [] @ char_of (65 + c mod 26) # acc"
      using True less [OF lt, of "char_of (65 + c mod 26) # acc"]
      by (subst ToString_letters.simps) (simp add: LETTERS_def)
    have b: "ToString_letters c []
             = ToString_letters (c div 26 - 1) [] @ [char_of (65 + c mod 26)]"
      using True less [OF lt, of "[char_of (65 + c mod 26)]"]
      by (subst ToString_letters.simps) (simp add: LETTERS_def)
    show ?thesis by (simp add: a b)
  next
    case False
    then show ?thesis by (simp add: ToString_letters.simps)
  qed
qed

lemma ToString_letters_unfold:
  "ToString_letters c [] =
     (if c \<ge> 0 then ToString_letters (c div 26 - 1) [] @ [char_of (65 + c mod 26)] else [])"
  by (subst ToString_letters.simps, subst ToString_letters_acc) (simp add: LETTERS_def)

lemma parse_col_snoc: "parse_col (xs @ [c]) = parse_col xs * 26 + (of_char c - 65 + 1)"
  by (simp add: parse_col_def LETTERS_def)

lemma of_char_letter: "0 \<le> k \<Longrightarrow> k < 26 \<Longrightarrow> (of_char (char_of (65 + k :: int)) :: int) = 65 + k"
  by simp

lemma isupper_letter: "0 \<le> k \<Longrightarrow> k < 26 \<Longrightarrow> isupper (char_of (65 + k :: int))"
  by (simp add: isupper_def)

lemma ToString_letters_upper: "list_all isupper (ToString_letters c [])"
proof (induction "nat (c + 1)" arbitrary: c rule: less_induct)
  case less
  show ?case
  proof (cases "c \<ge> 0")
    case True
    then have lt: "nat (c div 26 - 1 + 1) < nat (c + 1)" by simp
    have "isupper (char_of (65 + c mod 26))" by (rule isupper_letter) simp_all
    with True less [OF lt] show ?thesis
      by (subst ToString_letters_unfold) simp
  next
    case False
    then show ?thesis by (subst ToString_letters_unfold) simp
  qed
qed

lemma parse_col_ToString_letters: "- 1 \<le> c \<Longrightarrow> parse_col (ToString_letters c []) = c + 1"
proof (induction "nat (c + 1)" arbitrary: c rule: less_induct)
  case less
  show ?case
  proof (cases "c \<ge> 0")
    case True
    then have lt: "nat (c div 26 - 1 + 1) < nat (c + 1)" by simp
    have v: "(of_char (char_of (65 + c mod 26)) :: int) = 65 + c mod 26"
      by (rule of_char_letter) simp_all
    have "- 1 \<le> c div 26 - 1" using True by simp
    with less(1) [OF lt] have "parse_col (ToString_letters (c div 26 - 1) []) = c div 26 - 1 + 1"
      by blast
    with True v show ?thesis
      by (subst ToString_letters_unfold) (simp add: parse_col_snoc)
  next
    case False
    with less(2) have "c = - 1" by simp
    then show ?thesis by (subst ToString_letters_unfold) (simp add: parse_col_def)
  qed
qed

lemma length_ToString_letters_1: "0 \<le> c \<Longrightarrow> c < 26 \<Longrightarrow> length (ToString_letters c []) = 1"
  by (subst ToString_letters_unfold, subst ToString_letters_unfold) simp

lemma length_ToString_letters_2: "26 \<le> c \<Longrightarrow> c < 702 \<Longrightarrow> length (ToString_letters c []) = 2"
  using length_ToString_letters_1 [of "c div 26 - 1"]
  by (subst ToString_letters_unfold) simp

lemma length_ToString_letters_3: "702 \<le> c \<Longrightarrow> c < 18278 \<Longrightarrow> length (ToString_letters c []) = 3"
  using length_ToString_letters_2 [of "c div 26 - 1"]
  by (subst ToString_letters_unfold) simp

lemma length_ToString_letters:
  assumes "0 \<le> c" "c < 18278"
  shows "1 \<le> length (ToString_letters c []) \<and> length (ToString_letters c []) \<le> 3"
proof -
  consider "c < 26" | "26 \<le> c" "c < 702" | "702 \<le> c" by linarith
  then show ?thesis
    using assms length_ToString_letters_1 [of c] length_ToString_letters_2 [of c]
      length_ToString_letters_3 [of c]
    by cases simp_all
qed

lemma parse_col_nonneg: "list_all isupper xs \<Longrightarrow> 0 \<le> parse_col xs"
proof (induction xs rule: rev_induct)
  case Nil
  then show ?case by (simp add: parse_col_def)
next
  case (snoc c xs)
  then have "0 \<le> parse_col xs" "65 \<le> (of_char c :: int)" by (auto simp: isupper_def)
  then show ?case by (simp add: parse_col_snoc)
qed

lemma ToString_letters_parse_col:
  "list_all isupper xs \<Longrightarrow> ToString_letters (parse_col xs - 1) [] = xs"
proof (induction xs rule: rev_induct)
  case Nil
  then show ?case by (subst ToString_letters_unfold) (simp add: parse_col_def)
next
  case (snoc c xs)
  from snoc.prems have up: "list_all isupper xs" and c: "isupper c" by auto
  define v where "v = (of_char c :: int) - 65"
  have v: "0 \<le> v" "v < 26" using c by (auto simp: isupper_def v_def)
  have nn: "0 \<le> parse_col xs" using up by (rule parse_col_nonneg)
  have e: "parse_col (xs @ [c]) - 1 = parse_col xs * 26 + v"
    by (simp add: parse_col_snoc v_def)
  have d: "(parse_col xs * 26 + v) div 26 - 1 = parse_col xs - 1" using v by simp
  have m: "(parse_col xs * 26 + v) mod 26 = v" using v by simp
  have ch: "char_of (65 + v) = c" by (simp add: v_def)
  have ge: "0 \<le> parse_col xs * 26 + v" using nn v by simp
  have "ToString_letters (parse_col xs * 26 + v) []
        = ToString_letters (parse_col xs - 1) [] @ [c]"
    by (subst ToString_letters_unfold) (simp only: ge d m ch if_True)
  then show ?case
    unfolding e by (simp add: snoc.IH [OF up])
qed

lemma isdigit_not_isalpha: "isdigit c \<Longrightarrow> \<not> isalpha c"
  by (auto simp: isdigit_def isalpha_def isupper_def islower_def)

lemma isupper_isalpha: "isupper c \<Longrightarrow> isalpha c"
  by (simp add: isalpha_def)


lemma FromString_accepts:
  assumes L: "list_all isupper L" "1 \<le> length L" "length L \<le> 3"
    and D: "list_all isdigit D" "D \<noteq> []" "length L + length D \<le> 17"
    and v: "IsValid R C (Position (int32 (parse_row D - 1)) (parse_col L - 1))"
  shows "FromString R C (L @ D) = Position (int32 (parse_row D - 1)) (parse_col L - 1)"
proof -
  obtain d D' where D': "D = d # D'" using D(2) by (cases D) auto
  have nd: "\<not> isalpha d" using D(1) D' by (simp add: isdigit_not_isalpha)
  have al: "\<forall>x \<in> set L. isalpha x" using L(1) by (auto simp: list_all_iff isupper_isalpha)
  have tw: "takeWhile isalpha (L @ D) = L"
    using al nd D' by (simp add: takeWhile_append2)
  have cl: "count_letters (L @ D) 0 = Some (length L)"
    using count_letters_takeWhile [of 0 "L @ D"] tw L(1) by simp
  have ne: "L \<noteq> []" using L(2) by auto
  show ?thesis
    using L D v ne
    by (simp add: FromString_def cl MAX_POSITION_LENGTH_def MAX_POS_LETTER_COUNT_def Let_def)
qed

lemma FromString_ToString:
  assumes lim: "C \<le> 18278" "R < 2 ^ 31"
    and valid: "IsValid R C p"
  shows "FromString R C (ToString R C p) = p"
proof -
  obtain r c where p: "p = Position r c" by (cases p)
  have rc: "0 \<le> r" "r < R" "0 \<le> c" "c < C"
    using valid by (auto simp: IsValid_def p)
  define L where "L = ToString_letters c []"
  define D where "D = digits10 (nat (r + 1))"
  have ts: "ToString R C p = L @ D"
    using valid rc by (simp add: ToString_def p L_def D_def to_string_def)
  have L: "list_all isupper L" "1 \<le> length L" "length L \<le> 3"
    using ToString_letters_upper [of c] length_ToString_letters [of c] rc lim
    by (auto simp: L_def)
  have "nat (r + 1) < 10 ^ 10" using rc lim by simp
  then have lenD: "length D \<le> 10" unfolding D_def by (rule length_digits10) simp
  have D: "list_all isdigit D" "D \<noteq> []" "length L + length D \<le> 17"
    using digits10_isdigit digits10_nonempty lenD L(3) by (auto simp: D_def)
  have dec: "decimal D = r + 1" using rc by (simp add: D_def decimal_digits10)
  have "parse_row D = decimal D"
    using D(1) dec rc lim by (intro parse_row_decimal) simp_all
  then have row: "int32 (parse_row D - 1) = r"
    using dec rc lim by (simp add: int32_id)
  have col: "parse_col L - 1 = c"
    using rc by (simp add: L_def parse_col_ToString_letters)
  show ?thesis
    unfolding ts using FromString_accepts [OF L D, of R C] valid
    by (simp add: row col p)
qed

lemma ToString_FromString:
  assumes acc: "FromString R C s \<noteq> NONE"
    and lead: "hd (digit_part s) \<noteq> CHR ''0''"
    and fits: "decimal (digit_part s) < 2 ^ 31"
  shows "ToString R C (FromString R C s) = s"
proof -
  define L where "L = takeWhile isalpha s"
  define D where "D = digit_part s"
  have D_def': "D = dropWhile isalpha s" by (simp add: D_def digit_part_def)
  have s: "s = L @ D" by (simp add: L_def D_def')
  obtain n where cl: "count_letters s 0 = Some n"
    using acc by (auto simp: FromString_def split: if_splits option.splits)
  have n: "n = length L" and up: "list_all isupper L"
    using cl count_letters_takeWhile [of 0 s] by (auto simp: L_def split: if_splits)
  have tk: "take n s = L" "drop n s = D"
    using n by (simp_all add: L_def D_def' takeWhile_eq_take [symmetric] dropWhile_eq_drop [symmetric])
  define res where "res = Position (int32 (parse_row D - 1)) (parse_col L - 1)"
  have "n \<noteq> length s"
    using acc by (auto simp: FromString_def cl split: if_splits)
  then have D2: "D \<noteq> []" using n s by auto
  have fs: "FromString R C s = res"
    and D1: "list_all isdigit D"
    and v: "IsValid R C res"
    using acc by (auto simp: FromString_def cl tk res_def Let_def split: if_splits)
  note D = D1 D2
  have pr: "parse_row D = decimal D" using D(1) fits by (simp add: parse_row_decimal D_def)
  have nn: "0 \<le> decimal D" using D(1) by (rule decimal_nonneg)
  have "int32 (decimal D - 1) = decimal D - 1"
    using nn fits by (intro int32_id) (simp_all add: D_def)
  then have row: "int32 (parse_row D - 1) = decimal D - 1"
    by (simp add: pr)
  have ge: "1 \<le> decimal D" using v by (simp add: res_def IsValid_def row)
  have d: "to_string (decimal D) = D"
    using ge digits10_decimal [OF D(2) D(1)] lead by (simp add: to_string_def D_def)
  have l: "ToString_letters (parse_col L - 1) [] = L"
    using up by (rule ToString_letters_parse_col)
  show ?thesis
    using v by (simp add: fs ToString_def) (simp add: res_def row d l s)
qed

text \<open>
  Claim C6, the first half, and what holds of the second.  Every valid position is read
  back from its label, provided the limits are what an \<^verbatim>\<open>int\<close> and three letters can
  hold.  A label that \<^verbatim>\<open>FromString\<close> accepts is printed back as it was if its digit part
  has no leading zero and denotes a number below \<open>2 ^ 31\<close>.
\<close>

theorem Position_round_trip:
  "(C \<le> 18278 \<and> R < 2 ^ 31 \<and> IsValid R C p \<longrightarrow> FromString R C (ToString R C p) = p)
   \<and> (FromString R C s \<noteq> NONE \<and> hd (digit_part s) \<noteq> CHR ''0'' \<and> decimal (digit_part s) < 2 ^ 31
        \<longrightarrow> ToString R C (FromString R C s) = s)"
  using FromString_ToString [of C R p] ToString_FromString [of R C s] by blast

theorem Position_round_trip_witness:
  "IsValid 16384 16384 (Position 11 27)
   \<and> FromString 16384 16384 (ToString 16384 16384 (Position 11 27)) = Position 11 27
   \<and> FromString 16384 16384 ''AB12'' \<noteq> NONE
   \<and> hd (digit_part ''AB12'') \<noteq> CHR ''0'' \<and> decimal (digit_part ''AB12'') < 2 ^ 31
   \<and> ToString 16384 16384 (FromString 16384 16384 ''AB12'') = ''AB12''"
proof -
  have v: "IsValid 16384 16384 (Position 11 27)"
    by (simp add: IsValid_def)
  have a: "FromString 16384 16384 ''AB12'' \<noteq> NONE"
    by code_simp
  have d: "hd (digit_part ''AB12'') \<noteq> CHR ''0''" "decimal (digit_part ''AB12'') < 2 ^ 31"
    by code_simp+
  show ?thesis
    using Position_round_trip [of 16384 16384 "Position 11 27" "''AB12''"] v a d by simp
qed

text \<open>
  Claim C6 as stated fails on a label with a leading zero in its row number:
  \<^verbatim>\<open>FromString\<close> accepts \<^verbatim>\<open>A01\<close> as the position \<open>(0, 0)\<close>, whose label is \<^verbatim>\<open>A1\<close>.
\<close>

theorem ToString_FromString_leading_zero:
  "FromString 16384 16384 ''A01'' \<noteq> NONE
   \<and> ToString 16384 16384 (FromString 16384 16384 ''A01'') \<noteq> ''A01''"
  by code_simp

section \<open>Edge symmetry\<close>

text \<open>
  Claim C1.  On a new sheet, \<^verbatim>\<open>SetCell(B1, "=A1")\<close> creates \<^verbatim>\<open>B1\<close> at address 0 and
  the empty cell \<^verbatim>\<open>A1\<close> at address 1, with \<^verbatim>\<open>B1\<close> among the dependents of \<^verbatim>\<open>A1\<close>.
  \<^verbatim>\<open>ClearCell(B1)\<close> finds no dependents of \<^verbatim>\<open>B1\<close> and destroys the cell without
  unsubscribing it: \<^verbatim>\<open>A1\<close> keeps the address of the destroyed cell among its
  dependents, edge symmetry is lost, and the next edit of \<^verbatim>\<open>A1\<close> reads the destroyed
  cell while it invalidates caches.
\<close>

theorem ClearCell_leaves_dangling_dependent:
  "and_then (SetCell example_env B1 ''=A1'' new_Sheet) (ClearCell example_env B1)
     = Returned () \<lparr>cells = [[Some 1, None]],
                     heap = [None, Some \<lparr>impl = EmptyImpl, source_cells = [],
                                         dependent_cells = [0]\<rparr>]\<rparr>
   \<and> \<not> edge_symmetry \<lparr>cells = [[Some 1, None]],
                        heap = [None, Some \<lparr>impl = EmptyImpl :: Position list Impl,
                                            source_cells = [], dependent_cells = [0]\<rparr>]\<rparr>
   \<and> and_then (and_then (SetCell example_env B1 ''=A1'' new_Sheet) (ClearCell example_env B1))
        (SetCell example_env A1 ''5'') = Undefined"
  by code_simp

section \<open>How a formula reads the cells it refers to\<close>

subsection \<open>What std::stod reads\<close>

lemma in_double_range:
  assumes "v = 0 \<or> (1 \<le> \<bar>v\<bar> \<and> \<bar>v\<bar> \<le> 10 ^ 308)"
  shows "\<not> out_of_double_range v"
proof -
  define M :: real where "M = 2 ^ 1024 - 2 ^ 970"
  define m :: real where "m = 1 / 2 ^ 1022 - 1 / 2 ^ 1076"
  define T :: real where "T = 10 ^ 308"
  have a: "T < M" unfolding T_def M_def by simp
  have b: "m < 1" unfolding m_def by simp
  have t: "0 < T" unfolding T_def by simp
  from assms have "v = 0 \<or> (1 \<le> \<bar>v\<bar> \<and> \<bar>v\<bar> \<le> T)" by (simp add: T_def)
  with a b t
  have "\<not> (M \<le> \<bar>v\<bar> \<or> (v \<noteq> 0 \<and> \<bar>v\<bar> < m \<and> of_int \<lfloor>v * 2 ^ 1074\<rfloor> \<noteq> v * 2 ^ 1074))"
    by auto
  then show ?thesis unfolding out_of_double_range_def M_def m_def .
qed

text \<open>Numbers of moderate size are in the range without a look at the powers of two.\<close>

lemma out_of_double_range_code [code]:
  "out_of_double_range v \<longleftrightarrow>
     (if v = 0 \<or> (1 \<le> \<bar>v\<bar> \<and> \<bar>v\<bar> \<le> 1000000) then False
      else \<bar>v\<bar> \<ge> 2 ^ 1024 - 2 ^ 970
           \<or> (v \<noteq> 0 \<and> \<bar>v\<bar> < 1 / 2 ^ 1022 - 1 / 2 ^ 1076
               \<and> of_int \<lfloor>v * 2 ^ 1074\<rfloor> \<noteq> v * 2 ^ 1074))"
proof (cases "v = 0 \<or> (1 \<le> \<bar>v\<bar> \<and> \<bar>v\<bar> \<le> 1000000)")
  case True
  then have "v = 0 \<or> (1 \<le> \<bar>v\<bar> \<and> \<bar>v\<bar> \<le> 10 ^ 308)"
    by auto
  from in_double_range [OF this] True show ?thesis
    by simp
next
  case False
  then show ?thesis
    unfolding out_of_double_range_def by simp
qed












lemma std_stod_12: "std_stod ''12'' = stod_value 12 2"
proof -
  have "strtod ''12'' = Some (Some 12, 2)" by code_simp
  then show ?thesis using in_double_range [of 12] by (simp add: std_stod_def)
qed


lemma std_stod_0x10: "std_stod ''0x10'' = stod_value 16 4"
proof -
  have "strtod ''0x10'' = Some (Some 16, 4)" by code_simp
  then show ?thesis using in_double_range [of 16] by (simp add: std_stod_def)
qed

lemma std_stod_space_12: "std_stod '' 12'' = stod_value 12 3"
proof -
  have "strtod '' 12'' = Some (Some 12, 3)" by code_simp
  then show ?thesis using in_double_range [of 12] by (simp add: std_stod_def)
qed

subsection \<open>The resolver\<close>




subsection \<open>The result of the formula\<close>





text \<open>
  The texts \<^verbatim>\<open>0x10\<close> and \<^verbatim>\<open> 12\<close> are not decimal numbers, the one is hexadecimal and
  the other begins with a space.  \<^verbatim>\<open>std::stod\<close> reads all of both: they contribute \<open>16\<close>
  and \<open>12\<close>, and the formula \<^verbatim>\<open>=A1+B1\<close> is \<open>28\<close> and not \<^verbatim>\<open>FormulaError(Value)\<close>.
\<close>

theorem Evaluate_reads_hexadecimal:
  "and_then (and_then (SetCell example_env A1 ''0x10'' new_Sheet)
               (SetCell example_env B1 '' 12''))
     (SetCell example_env (Position 0 2) ''=A1+B1'') = Returned () hexadecimal_sheet
   \<and> strict_decimal ''0x10'' = None
   \<and> strict_decimal '' 12'' = None
   \<and> get_cell_value example_env (Cell_GetValue 1 example_env) A1 hexadecimal_sheet
       = Some (Returned 16 hexadecimal_sheet)
   \<and> get_cell_value example_env (Cell_GetValue 1 example_env) B1 hexadecimal_sheet
       = Some (Returned 12 hexadecimal_sheet)
   \<and> Evaluate example_env [A1, B1] (get_cell_value example_env (Cell_GetValue 1 example_env))
        hexadecimal_sheet = Some (Returned (Inr 28) hexadecimal_sheet)"
  by code_simp

section \<open>The edit protocol: storage, kept cells and rollback\<close>

subsection \<open>The store\<close>

lemma cell_at_put_cell:
  "cell_at (put_cell a c s) b = (if b = a \<and> a < length (heap s) then Some c else cell_at s b)"
  by (simp add: cell_at_def put_cell_def)

lemma cell_at_put_cell_alive:
  "cell_at s a = Some c0 \<Longrightarrow> cell_at (put_cell a c s) b = (if b = a then Some c else cell_at s b)"
  by (auto simp: cell_at_def put_cell_def split: if_splits)

lemma cells_put_cell [simp]: "cells (put_cell a c s) = cells s"
  by (simp add: put_cell_def)

lemma length_heap_put_cell [simp]: "length (heap (put_cell a c s)) = length (heap s)"
  by (simp add: put_cell_def)

lemma GetCell_cells: "cells s' = cells s \<Longrightarrow> GetCell env p s' = GetCell env p s"
  by (simp add: GetCell_def)

lemma GetCell_put_cell [simp]: "GetCell env p (put_cell a c s) = GetCell env p s"
  by (simp add: GetCell_def)

lemma put_cell_same: "cell_at s a = Some c \<Longrightarrow> put_cell a c s = s"
  by (auto simp: cell_at_def put_cell_def split: if_splits intro: list_update_id [THEN arg_cong] dest: sym)

lemma put_impl_same: "cell_at s this = Some c \<Longrightarrow> put_impl this (impl c) s = s"
  by (simp add: put_impl_def put_cell_same)

lemma cells_put_impl [simp]: "cells (put_impl a i s) = cells s"
  by (simp add: put_impl_def split: option.splits)

lemma GetCell_put_impl [simp]: "GetCell env p (put_impl a i s) = GetCell env p s"
  by (simp add: GetCell_def)

lemma GetCell_Inl_iff: "(\<exists>e. GetCell env p s = Inl e) \<longleftrightarrow> \<not> IsValid (MAX_ROWS env) (MAX_COLS env) p"
  by (auto simp: GetCell_def)

lemma GetCell_Inl_state: "GetCell env p s = Inl e \<Longrightarrow> GetCell env p s' = Inl e"
  by (auto simp: GetCell_def split: if_splits)

subsection \<open>Growing the grid\<close>

lemma length_ResizeIfNeeded:
  "length (ResizeIfNeeded d v i) = (if i \<ge> int (length v) then nat (i + 1) else length v)"
  by (auto simp: ResizeIfNeeded_def)

lemma nth_ResizeIfNeeded:
  "n < length (ResizeIfNeeded d v i) \<Longrightarrow>
   ResizeIfNeeded d v i ! n = (if n < length v then v ! n else d)"
  by (auto simp: ResizeIfNeeded_def nth_append)

lemma GetCell_slot:
  "GetCell env p s =
     (if \<not> IsValid (MAX_ROWS env) (MAX_COLS env) p
      then Inl (InvalidPositionException ''Invalid position'')
      else Inr (slot (cells s) (nat (row p)) (nat (col p))))"
  by (auto simp: GetCell_def slot_def IsValid_def)

lemma slot_ResizeIfNeeded_row:
  "(if c < length (ResizeIfNeeded None r i) then ResizeIfNeeded None r i ! c else None)
   = (if c < length r then r ! c else None)"
proof (cases "c < length (ResizeIfNeeded None r i)")
  case True
  then show ?thesis by (simp add: nth_ResizeIfNeeded)
next
  case False
  then have "\<not> c < length r" by (auto simp: length_ResizeIfNeeded split: if_splits)
  with False show ?thesis by simp
qed

lemma slot_map_ResizeIfNeeded:
  "slot (map (\<lambda>r. ResizeIfNeeded None r i) rs) r c = slot rs r c"
  using slot_ResizeIfNeeded_row [of c "rs ! r" i]
  by (auto simp: slot_def)

lemma slot_ResizeIfNeeded_rows: "slot (ResizeIfNeeded [] cs i) r c = slot cs r c"
proof (cases "r < length (ResizeIfNeeded [] cs i)")
  case True
  then show ?thesis by (auto simp: slot_def nth_ResizeIfNeeded)
next
  case False
  then have "\<not> r < length cs" by (auto simp: length_ResizeIfNeeded split: if_splits)
  with False show ?thesis by (simp add: slot_def)
qed

lemma slot_MaybeIncrease [simp]:
  "slot (cells (MaybeIncreaseSizeToIncludePosition pos s)) r c = slot (cells s) r c"
  by (simp add: MaybeIncreaseSizeToIncludePosition_def Let_def slot_map_ResizeIfNeeded
      slot_ResizeIfNeeded_rows)

lemma GetCell_MaybeIncrease [simp]:
  "GetCell env p (MaybeIncreaseSizeToIncludePosition pos s) = GetCell env p s"
  by (simp add: GetCell_slot)

lemma heap_MaybeIncrease [simp]: "heap (MaybeIncreaseSizeToIncludePosition pos s) = heap s"
  by (simp add: MaybeIncreaseSizeToIncludePosition_def Let_def)

lemma cell_at_MaybeIncrease [simp]:
  "cell_at (MaybeIncreaseSizeToIncludePosition pos s) a = cell_at s a"
  by (simp add: cell_at_def)

lemma MaybeIncrease_in_range:
  assumes "0 \<le> row pos" "0 \<le> col pos"
  shows "nat (row pos) < length (cells (MaybeIncreaseSizeToIncludePosition pos s))
         \<and> nat (col pos) < length (cells (MaybeIncreaseSizeToIncludePosition pos s) ! nat (row pos))"
proof -
  define rs where "rs = ResizeIfNeeded [] (cells s) (row pos)"
  have cells': "cells (MaybeIncreaseSizeToIncludePosition pos s) = map (\<lambda>r. ResizeIfNeeded None r (col pos)) rs"
    using assms by (simp add: MaybeIncreaseSizeToIncludePosition_def Let_def rs_def)
  have n: "nat (row pos) < length rs"
    using assms by (auto simp: rs_def length_ResizeIfNeeded)
  show ?thesis
    using n assms by (auto simp: cells' length_ResizeIfNeeded)
qed


subsection \<open>A new cell\<close>

lemma fst_make_Cell [simp]: "fst (make_Cell pos s) = length (heap s)"
  by (simp add: make_Cell_def Let_def)

lemma heap_make_Cell [simp]: "heap (snd (make_Cell pos s)) = heap s @ [Some new_Cell]"
  by (simp add: make_Cell_def Let_def)

lemma cell_at_make_Cell:
  "cell_at (snd (make_Cell pos s)) a = (if a = length (heap s) then Some new_Cell else cell_at s a)"
  by (auto simp: cell_at_def nth_append)

lemma slot_update:
  "slot (cs[r0 := (cs ! r0)[c0 := v]]) r c =
     (if r = r0 \<and> c = c0 \<and> r0 < length cs \<and> c0 < length (cs ! r0) then v else slot cs r c)"
proof (cases "r = r0")
  case True
  then show ?thesis by (auto simp: slot_def nth_list_update)
next
  case False
  then show ?thesis by (auto simp: slot_def)
qed

lemma slot_make_Cell:
  "slot (cells (snd (make_Cell pos s))) r c =
     (if r = nat (row pos) \<and> c = nat (col pos) \<and> nat (row pos) < length (cells s)
         \<and> nat (col pos) < length (cells s ! nat (row pos))
      then Some (length (heap s)) else slot (cells s) r c)"
  by (simp add: make_Cell_def Let_def slot_update)

lemma Cell_Set_same_text:
  "cell_at s this = Some c \<Longrightarrow> Cell_GetText env c = txt \<Longrightarrow> Cell_Set env this txt s = Returned () s"
  by (subst Cell_Set.simps) simp

lemma SetCell_absent:
  assumes v: "IsValid (MAX_ROWS env) (MAX_COLS env) pos"
    and absent: "GetCell env pos s = Inr None"
  shows "SetCell env pos [] s
         = Returned () (snd (make_Cell pos (MaybeIncreaseSizeToIncludePosition pos s)))"
proof -
  let ?s0 = "MaybeIncreaseSizeToIncludePosition pos s"
  have g: "GetConcreteCell env pos ?s0 = Inr None"
    using absent by (simp add: GetConcreteCell_def)
  have c: "cell_at (snd (make_Cell pos ?s0)) (length (heap s)) = Some new_Cell"
    by (simp add: cell_at_make_Cell)
  have t: "Cell_GetText env (new_Cell :: 'a Cell) = []"
    by (simp add: Cell_GetText_def new_Cell_def)
  have "Cell_Set env (length (heap s)) [] (snd (make_Cell pos ?s0))
        = Returned () (snd (make_Cell pos ?s0))"
    using c t by (rule Cell_Set_same_text)
  then show ?thesis
    using v g by (subst SetCell.simps) (simp add: case_prod_beta)
qed


subsection \<open>Cells are kept\<close>

lemma keeps_cells_refl [simp]: "keeps_cells env s s"
  by (simp add: keeps_cells_def)

lemma keeps_cells_trans: "keeps_cells env s s1 \<Longrightarrow> keeps_cells env s1 s2 \<Longrightarrow> keeps_cells env s s2"
  by (simp add: keeps_cells_def)

lemma keeps_cells_put_cell: "keeps_cells env s (put_cell a c s)"
  by (simp add: keeps_cells_def cell_at_put_cell)

lemma keeps_cells_put_impl: "keeps_cells env s (put_impl a i s)"
  by (simp add: put_impl_def keeps_cells_put_cell split: option.splits)

lemma keeps_cells_MaybeIncrease: "keeps_cells env s (MaybeIncreaseSizeToIncludePosition pos s)"
  by (simp add: keeps_cells_def)

lemma keeps_cells_make_Cell:
  assumes "slot (cells s) (nat (row pos)) (nat (col pos)) = None"
  shows "keeps_cells env s (snd (make_Cell pos s))"
  using assms
  by (auto simp: keeps_cells_def GetCell_slot slot_make_Cell cell_at_make_Cell split: if_splits)

lemma keeps_cells_Unsubscribe_loop:
  "UnsubscribeFromSources_loop this xs s = Some s' \<Longrightarrow> keeps_cells env s s'"
proof (induction xs arbitrary: s)
  case Nil
  then show ?case by simp
next
  case (Cons x xs)
  then show ?case
    by (auto split: option.splits intro: keeps_cells_trans [OF keeps_cells_put_cell])
qed

lemma keeps_cells_Unsubscribe:
  "UnsubscribeFromSources this s = Some s' \<Longrightarrow> keeps_cells env s s'"
  by (auto simp: UnsubscribeFromSources_def split: option.splits
      intro: keeps_cells_trans [OF keeps_cells_Unsubscribe_loop keeps_cells_put_cell])

lemma keeps_cells_Invalidate_loop:
  "InvalidateCacheDownstream_loop st visited s = Some s' \<Longrightarrow> keeps_cells env s s'"
proof (induction st visited s rule: InvalidateCacheDownstream_loop.induct)
  case (1 visited s)
  then show ?case by (simp add: InvalidateCacheDownstream_loop.simps)
next
  case (2 cur st visited s)
  show ?case
  proof (cases "cur \<in> set visited")
    case True
    with 2 show ?thesis by (simp add: InvalidateCacheDownstream_loop.simps)
  next
    case False
    with 2(3) obtain c where c: "cell_at s cur = Some c"
      by (auto simp: InvalidateCacheDownstream_loop.simps split: option.splits)
    with False 2(3) have "InvalidateCacheDownstream_loop (rev (dependent_cells c) @ st)
        (cur # visited) (put_cell cur (c\<lparr>impl := InvalidateCache (impl c)\<rparr>) s) = Some s'"
      by (simp add: InvalidateCacheDownstream_loop.simps)
    then have "keeps_cells env (put_cell cur (c\<lparr>impl := InvalidateCache (impl c)\<rparr>) s) s'"
      using 2(2) [OF False c] by simp
    then show ?thesis
      by (rule keeps_cells_trans [OF keeps_cells_put_cell])
  qed
qed

lemma keeps_cells_Invalidate:
  "InvalidateCacheDownstream this s = Some s' \<Longrightarrow> keeps_cells env s s'"
  unfolding InvalidateCacheDownstream_def by (rule keeps_cells_Invalidate_loop)

lemma keeps_cells_subscribe: "subscribe this src s = Some s' \<Longrightarrow> keeps_cells env s s'"
  by (auto simp: subscribe_def Let_def split: option.splits
      intro: keeps_cells_trans [OF keeps_cells_put_cell keeps_cells_put_cell])

lemma keeps_cells_SetCell_absent:
  assumes "IsValid (MAX_ROWS env) (MAX_COLS env) pos" "GetCell env pos s = Inr None"
  shows "keeps_cells env s (snd (make_Cell pos (MaybeIncreaseSizeToIncludePosition pos s)))"
proof -
  have "slot (cells (MaybeIncreaseSizeToIncludePosition pos s)) (nat (row pos)) (nat (col pos)) = None"
    using assms by (simp add: GetCell_slot)
  then show ?thesis
    by (intro keeps_cells_trans [OF keeps_cells_MaybeIncrease keeps_cells_make_Cell])
qed

lemma keeps_cells_UpdateDependencies_loop:
  "state_of (UpdateDependencies_loop env this refs s) = Some s' \<Longrightarrow> keeps_cells env s s'"
proof (induction refs arbitrary: s)
  case Nil
  then show ?case by simp
next
  case (Cons pos rest)
  show ?case
  proof (cases "GetCell env pos s")
    case (Inl e)
    with Cons.prems show ?thesis by simp
  next
    case (Inr found)
    show ?thesis
    proof (cases found)
      case (Some src)
      with Inr Cons show ?thesis
        by (auto split: if_splits option.splits
            intro: keeps_cells_trans [OF keeps_cells_subscribe])
    next
      case None
      have v: "IsValid (MAX_ROWS env) (MAX_COLS env) pos"
        using Inr by (auto simp: GetCell_def split: if_splits)
      note sc = SetCell_absent [OF v Inr [unfolded None]]
      note k = keeps_cells_SetCell_absent [OF v Inr [unfolded None]]
      show ?thesis
        using Cons.prems Inr None
        by (auto simp: sc split: sum.splits option.splits if_splits
            intro: keeps_cells_trans [OF k] keeps_cells_trans [OF k keeps_cells_trans [OF keeps_cells_subscribe]]
            dest!: Cons.IH)
    qed
  qed
qed


lemma keeps_cells_UpdateDependencies:
  "state_of (UpdateDependencies env this refs s) = Some s' \<Longrightarrow> keeps_cells env s s'"
  by (subst (asm) UpdateDependencies.simps)
    (auto split: option.splits
      intro: keeps_cells_trans [OF keeps_cells_Unsubscribe keeps_cells_UpdateDependencies_loop])

lemma keeps_cells_Cell_Set:
  assumes "state_of (Cell_Set env this txt s) = Some s'"
  shows "keeps_cells env s s'"
proof -
  obtain c where c: "cell_at s this = Some c"
    using assms by (subst (asm) Cell_Set.simps) (auto split: option.splits)
  show ?thesis
  proof (cases "txt = Cell_GetText env c")
    case True
    with assms c show ?thesis by (subst (asm) Cell_Set.simps) simp
  next
    case False
    show ?thesis
    proof (cases "Set_new_impl env this txt s")
      case (Returned new u)
      let ?s0 = "put_impl this (fst new) s"
      have k0: "keeps_cells env s ?s0" by (rule keeps_cells_put_impl)
      show ?thesis
      proof (cases "UpdateDependencies env this (snd new) ?s0")
        case r: (Returned u1 s1)
        have k1: "keeps_cells env ?s0 s1"
          using keeps_cells_UpdateDependencies [of env this "snd new" ?s0 s1] r by simp
        from assms c False Returned r obtain s2 where
          "InvalidateCacheDownstream this s1 = Some s2" "s' = s2"
          by (subst (asm) Cell_Set.simps) (auto split: option.splits)
        then show ?thesis
          using k0 k1 keeps_cells_Invalidate keeps_cells_trans by blast
      next
        case r: (Raised e s1)
        have k1: "keeps_cells env ?s0 s1"
          using keeps_cells_UpdateDependencies [of env this "snd new" ?s0 s1] r by simp
        from assms c False Returned r have "s' = put_impl this (impl c) s1"
          by (subst (asm) Cell_Set.simps) simp
        then show ?thesis
          using k0 k1 keeps_cells_put_impl keeps_cells_trans by blast
      next
        case Undefined
        with assms c False Returned show ?thesis by (subst (asm) Cell_Set.simps) simp
      qed
    next
      case (Raised e u)
      with assms c False have "s' = put_impl this (impl c) s"
        by (subst (asm) Cell_Set.simps) simp
      then show ?thesis by (simp add: keeps_cells_put_impl)
    next
      case Undefined
      with assms c False show ?thesis by (subst (asm) Cell_Set.simps) simp
    qed
  qed
qed

lemma keeps_cells_SetCell:
  assumes "state_of (SetCell env pos txt s) = Some s'"
  shows "keeps_cells env s s'"
proof (cases "IsValid (MAX_ROWS env) (MAX_COLS env) pos")
  case False
  with assms show ?thesis by (subst (asm) SetCell.simps) simp
next
  case True
  let ?s0 = "MaybeIncreaseSizeToIncludePosition pos s"
  obtain found where g: "GetConcreteCell env pos ?s0 = Inr found"
    using True by (auto simp: GetConcreteCell_def GetCell_slot)
  show ?thesis
  proof (cases found)
    case (Some cell)
    with assms True g have "state_of (Cell_Set env cell txt ?s0) = Some s'"
      by (subst (asm) SetCell.simps) (auto split: result.splits)
    then have "keeps_cells env ?s0 s'" by (rule keeps_cells_Cell_Set)
    then show ?thesis by (rule keeps_cells_trans [OF keeps_cells_MaybeIncrease])
  next
    case None
    let ?s1 = "snd (make_Cell pos ?s0)"
    have k: "keeps_cells env s ?s1"
      using True g None by (intro keeps_cells_SetCell_absent) (simp_all add: GetConcreteCell_def)
    from assms True g None have "state_of (Cell_Set env (fst (make_Cell pos ?s0)) txt ?s1) = Some s'"
      by (subst (asm) SetCell.simps) (auto simp: case_prod_beta split: result.splits)
    then have "keeps_cells env ?s1 s'" by (rule keeps_cells_Cell_Set)
    with k show ?thesis by (rule keeps_cells_trans)
  qed
qed

subsection \<open>No exception once the graph is touched\<close>

lemma seed_valid:
  "CheckCircularDependency_seed env s this refs queue = Inr (False, q) \<Longrightarrow>
   \<forall>p \<in> set refs. IsValid (MAX_ROWS env) (MAX_COLS env) p"
proof (induction refs arbitrary: queue)
  case Nil
  then show ?case by simp
next
  case (Cons pos rest)
  then show ?case
    by (auto simp: GetConcreteCell_def GetCell_def split: sum.splits option.splits if_splits)
qed

lemma CheckCircularDependency_valid:
  "CheckCircularDependency env this refs s = Returned False u \<Longrightarrow>
   \<forall>p \<in> set refs. IsValid (MAX_ROWS env) (MAX_COLS env) p"
  by (auto simp: CheckCircularDependency_def split: sum.splits prod.splits bool.splits option.splits
      dest: seed_valid)

lemma Set_new_impl_valid:
  "Set_new_impl env this txt s = Returned new u \<Longrightarrow>
   \<forall>p \<in> set (snd new). IsValid (MAX_ROWS env) (MAX_COLS env) p"
  by (auto simp: Set_new_impl_def split: if_splits sum.splits result.splits
      dest: CheckCircularDependency_valid)

lemma UpdateDependencies_loop_not_Raised:
  "\<forall>p \<in> set refs. IsValid (MAX_ROWS env) (MAX_COLS env) p \<Longrightarrow>
   UpdateDependencies_loop env this refs s \<noteq> Raised e s'"
proof (induction refs arbitrary: s)
  case Nil
  then show ?case by simp
next
  case (Cons pos rest)
  then have v: "IsValid (MAX_ROWS env) (MAX_COLS env) pos" by simp
  from Cons have ih: "\<And>s. UpdateDependencies_loop env this rest s \<noteq> Raised e s'" by simp
  obtain found where g: "GetCell env pos s = Inr found"
    using v by (auto simp: GetCell_slot)
  show ?case
  proof (cases found)
    case (Some src)
    with g ih show ?thesis by (auto split: option.splits)
  next
    case None
    note sc = SetCell_absent [OF v g [unfolded None]]
    have "\<exists>f. GetCell env pos (snd (make_Cell pos (MaybeIncreaseSizeToIncludePosition pos s))) = Inr f"
      using v by (auto simp: GetCell_slot)
    then show ?thesis
      using g None ih by (auto simp: sc split: option.splits if_splits)
  qed
qed

lemma UpdateDependencies_not_Raised:
  "\<forall>p \<in> set refs. IsValid (MAX_ROWS env) (MAX_COLS env) p \<Longrightarrow>
   UpdateDependencies env this refs s \<noteq> Raised e s'"
  by (subst UpdateDependencies.simps)
    (auto split: option.splits dest: UpdateDependencies_loop_not_Raised)

lemma Cell_Set_Raised:
  assumes "Cell_Set env this txt s = Raised e s'"
  shows "s' = s"
proof -
  obtain c where c: "cell_at s this = Some c"
    using assms by (subst (asm) Cell_Set.simps) (auto split: option.splits)
  have ne: "txt \<noteq> Cell_GetText env c"
    using assms c by (subst (asm) Cell_Set.simps) (auto split: if_splits)
  show ?thesis
  proof (cases "Set_new_impl env this txt s")
    case (Returned new u)
    then have "UpdateDependencies env this (snd new) (put_impl this (fst new) s)
               \<noteq> Raised e s1" for e s1
      by (intro UpdateDependencies_not_Raised Set_new_impl_valid)
    with assms c ne Returned show ?thesis
      by (subst (asm) Cell_Set.simps) (auto split: result.splits option.splits)
  next
    case (Raised e' u)
    with assms c ne show ?thesis
      by (subst (asm) Cell_Set.simps) (simp add: put_impl_same)
  next
    case Undefined
    with assms c ne show ?thesis by (subst (asm) Cell_Set.simps) simp
  qed
qed


section \<open>The cycle check\<close>

lemma leaves_visited:
  assumes "(v, this) \<in> (source_edge s)\<^sup>*" "v \<in> V" "this \<notin> V"
    and closed: "\<forall>v \<in> V. \<forall>c. cell_at s v = Some c \<longrightarrow> set (source_cells c) \<subseteq> V \<union> Q"
  shows "\<exists>q \<in> Q. (q, this) \<in> (source_edge s)\<^sup>*"
  using assms(1,2)
proof (induction rule: converse_rtrancl_induct)
  case base
  with assms(3) show ?case by simp
next
  case (step v w)
  from step(1) obtain c where c: "cell_at s v = Some c" "w \<in> set (source_cells c)"
    by (auto simp: source_edge_def)
  with closed step(4) have "w \<in> V \<union> Q" by blast
  then show ?case
  proof
    assume "w \<in> V"
    then show ?thesis by (rule step.IH)
  next
    assume "w \<in> Q"
    with step(2) show ?thesis by blast
  qed
qed

lemma bfs_correct:
  assumes "CheckCircularDependency_bfs s this queue visited = Some b"
    and "this \<notin> set visited"
    and "\<forall>v \<in> set visited. \<forall>c. cell_at s v = Some c \<longrightarrow>
           set (source_cells c) \<subseteq> set visited \<union> set queue"
  shows "b \<longleftrightarrow> (\<exists>q \<in> set queue. (q, this) \<in> (source_edge s)\<^sup>*)"
  using assms
proof (induction s this queue visited rule: CheckCircularDependency_bfs.induct)
  case (1 s this visited)
  then show ?case by (simp add: CheckCircularDependency_bfs.simps)
next
  case (2 s this cur queue visited)
  show ?case
  proof (cases "cur \<in> set visited")
    case True
    with 2(3) have run: "CheckCircularDependency_bfs s this queue visited = Some b"
      by (simp add: CheckCircularDependency_bfs.simps)
    have closed: "\<forall>v \<in> set visited. \<forall>c. cell_at s v = Some c \<longrightarrow>
           set (source_cells c) \<subseteq> set visited \<union> set queue"
      using 2(5) True by auto
    have ih: "b \<longleftrightarrow> (\<exists>q \<in> set queue. (q, this) \<in> (source_edge s)\<^sup>*)"
      using 2(1) [OF True run 2(4) closed] .
    have "(cur, this) \<in> (source_edge s)\<^sup>* \<Longrightarrow> \<exists>q \<in> set queue. (q, this) \<in> (source_edge s)\<^sup>*"
      using leaves_visited [OF _ True 2(4) closed] by blast
    with ih show ?thesis by auto
  next
    case False
    show ?thesis
    proof (cases "cur = this")
      case True
      with False 2(3) show ?thesis by (auto simp: CheckCircularDependency_bfs.simps)
    next
      case ne: False
      with False 2(3) obtain c where c: "cell_at s cur = Some c"
        and run: "CheckCircularDependency_bfs s this (queue @ source_cells c) (cur # visited) = Some b"
        by (auto simp: CheckCircularDependency_bfs.simps split: option.splits)
      have nv: "this \<notin> set (cur # visited)" using ne 2(4) by auto
      have closed: "\<forall>v \<in> set (cur # visited). \<forall>c'. cell_at s v = Some c' \<longrightarrow>
           set (source_cells c') \<subseteq> set (cur # visited) \<union> set (queue @ source_cells c)"
        using 2(5) c by auto
      have ih: "b \<longleftrightarrow> (\<exists>q \<in> set (queue @ source_cells c). (q, this) \<in> (source_edge s)\<^sup>*)"
        using 2(2) [OF False ne c run nv closed] .
      have step: "(cur, this) \<in> (source_edge s)\<^sup>* \<longleftrightarrow>
                  (\<exists>q \<in> set (source_cells c). (q, this) \<in> (source_edge s)\<^sup>*)"
      proof
        assume "(cur, this) \<in> (source_edge s)\<^sup>*"
        then obtain w where "(cur, w) \<in> source_edge s" "(w, this) \<in> (source_edge s)\<^sup>*"
          using ne by (auto elim: converse_rtranclE)
        then show "\<exists>q \<in> set (source_cells c). (q, this) \<in> (source_edge s)\<^sup>*"
          using c by (auto simp: source_edge_def)
      next
        assume "\<exists>q \<in> set (source_cells c). (q, this) \<in> (source_edge s)\<^sup>*"
        then obtain q where q: "q \<in> set (source_cells c)" "(q, this) \<in> (source_edge s)\<^sup>*" by blast
        then have "(cur, q) \<in> source_edge s" using c by (auto simp: source_edge_def)
        then show "(cur, this) \<in> (source_edge s)\<^sup>*"
          using q(2) by (rule converse_rtrancl_into_rtrancl)
      qed
      show ?thesis using ih step by auto
    qed
  qed
qed

lemma bfs_total:
  assumes "\<forall>q \<in> set queue. cell_at s q \<noteq> None"
    and "\<forall>a c. cell_at s a = Some c \<longrightarrow> (\<forall>src \<in> set (source_cells c). cell_at s src \<noteq> None)"
  shows "CheckCircularDependency_bfs s this queue visited \<noteq> None"
  using assms
proof (induction s this queue visited rule: CheckCircularDependency_bfs.induct)
  case (1 s this visited)
  then show ?case by (simp add: CheckCircularDependency_bfs.simps)
next
  case (2 s this cur queue visited)
  show ?case
  proof (cases "cur \<in> set visited")
    case True
    with 2 show ?thesis by (simp add: CheckCircularDependency_bfs.simps)
  next
    case False
    show ?thesis
    proof (cases "cur = this")
      case True
      with False show ?thesis by (simp add: CheckCircularDependency_bfs.simps)
    next
      case ne: False
      from 2(3) obtain c where c: "cell_at s cur = Some c" by auto
      have "\<forall>q \<in> set (queue @ source_cells c). cell_at s q \<noteq> None"
        using 2(3,4) c by auto
      then have "CheckCircularDependency_bfs s this (queue @ source_cells c) (cur # visited) \<noteq> None"
        using 2(2) [OF False ne c _ 2(4)] by blast
      with False ne c show ?thesis by (simp add: CheckCircularDependency_bfs.simps)
    qed
  qed
qed

lemma seed_result:
  assumes "\<forall>p \<in> set refs. IsValid (MAX_ROWS env) (MAX_COLS env) p"
  shows "\<exists>found q. CheckCircularDependency_seed env s this refs queue = Inr (found, q)
      \<and> (found \<longrightarrow> this \<in> proposed_sources env s refs)
      \<and> (\<not> found \<longrightarrow> this \<notin> proposed_sources env s refs
                       \<and> set q = set queue \<union> proposed_sources env s refs)"
  using assms
proof (induction refs arbitrary: queue)
  case Nil
  show ?case
    by (intro exI [of _ False] exI [of _ queue]) (simp add: proposed_sources_def)
next
  case (Cons pos rest)
  then have v: "IsValid (MAX_ROWS env) (MAX_COLS env) pos" by simp
  then obtain f where g: "GetCell env pos s = Inr f" by (auto simp: GetCell_slot)
  have ps: "proposed_sources env s (pos # rest)
            = (case f of None \<Rightarrow> {} | Some a \<Rightarrow> {a}) \<union> proposed_sources env s rest"
    using g by (auto simp: proposed_sources_def split: option.splits)
  show ?case
  proof (cases f)
    case None
    with Cons g ps show ?thesis by (simp add: GetConcreteCell_def)
  next
    case (Some c)
    show ?thesis
    proof (cases "c = this")
      case True
      with g Some ps show ?thesis
        by (intro exI [of _ True] exI [of _ queue]) (simp add: GetConcreteCell_def)
    next
      case False
      from Cons obtain found q where
        r: "CheckCircularDependency_seed env s this rest (queue @ [c]) = Inr (found, q)"
        "found \<longrightarrow> this \<in> proposed_sources env s rest"
        "\<not> found \<longrightarrow> this \<notin> proposed_sources env s rest
                       \<and> set q = set (queue @ [c]) \<union> proposed_sources env s rest"
        by (metis list.set_intros(2))
      with g Some ps False show ?thesis
        by (auto simp: GetConcreteCell_def)
    qed
  qed
qed

lemma slot_in_concat:
  assumes "slot cs r c = Some a"
  shows "Some a \<in> set (concat cs)"
proof -
  from assms have r: "r < length cs" and c: "c < length (cs ! r)" and v: "cs ! r ! c = Some a"
    by (auto simp: slot_def split: if_splits)
  from c v have "Some a \<in> set (cs ! r)" by (metis nth_mem)
  moreover from r have "cs ! r \<in> set cs" by simp
  ultimately show ?thesis by auto
qed

lemma no_dangling_GetCell:
  assumes "no_dangling_source s" "GetCell env p s = Inr (Some a)"
  shows "cell_at s a \<noteq> None"
proof -
  from assms(2) have "slot (cells s) (nat (row p)) (nat (col p)) = Some a"
    by (auto simp: GetCell_slot split: if_splits)
  then have "Some a \<in> set (concat (cells s))" by (rule slot_in_concat)
  moreover from assms(1) have
    "\<forall>x \<in> set (concat (cells s)). case x of None \<Rightarrow> True | Some a \<Rightarrow> cell_at s a \<noteq> None"
    by (simp add: no_dangling_source_def list_all_iff)
  ultimately show ?thesis by fastforce
qed

lemma no_dangling_sources:
  assumes "no_dangling_source s" "cell_at s a = Some c" "src \<in> set (source_cells c)"
  shows "cell_at s src \<noteq> None"
proof -
  have "a < length (heap s)" using assms(2) by (auto simp: cell_at_def split: if_splits)
  moreover from assms(1) have
    "\<forall>a \<in> set [0..<length (heap s)]. case cell_at s a of None \<Rightarrow> True
        | Some c \<Rightarrow> list_all (\<lambda>src. cell_at s src \<noteq> None) (source_cells c)"
    by (simp add: no_dangling_source_def list_all_iff)
  ultimately have "case cell_at s a of None \<Rightarrow> True
        | Some c \<Rightarrow> list_all (\<lambda>src. cell_at s src \<noteq> None) (source_cells c)"
    by simp
  then have "list_all (\<lambda>src. cell_at s src \<noteq> None) (source_cells c)"
    by (simp add: assms(2))
  then show ?thesis using assms(3) by (simp add: list_all_iff)
qed

lemma CheckCircularDependency_correct:
  assumes v: "\<forall>p \<in> set refs. IsValid (MAX_ROWS env) (MAX_COLS env) p"
    and nd: "no_dangling_source s"
  shows "CheckCircularDependency env this refs s
         = Returned (this \<in> sources_closure env s refs) ()"
proof -
  from seed_result [OF v, of s this "[]"] obtain found q where
    sd: "CheckCircularDependency_seed env s this refs [] = Inr (found, q)"
    and f: "found \<longrightarrow> this \<in> proposed_sources env s refs"
    and nf: "\<not> found \<longrightarrow> this \<notin> proposed_sources env s refs
             \<and> set q = proposed_sources env s refs"
    by auto
  show ?thesis
  proof (cases found)
    case True
    with f have "this \<in> sources_closure env s refs"
      by (auto simp: sources_closure_def)
    with sd True show ?thesis by (simp add: CheckCircularDependency_def)
  next
    case False
    with nf have q: "set q = proposed_sources env s refs" by simp
    have alive: "\<forall>a \<in> set q. cell_at s a \<noteq> None"
      using nd q by (auto simp: proposed_sources_def dest: no_dangling_GetCell)
    have "CheckCircularDependency_bfs s this q [] \<noteq> None"
      using alive nd by (intro bfs_total) (auto dest: no_dangling_sources)
    then obtain b where b: "CheckCircularDependency_bfs s this q [] = Some b" by auto
    have "b \<longleftrightarrow> (\<exists>a \<in> set q. (a, this) \<in> (source_edge s)\<^sup>*)"
      using b by (rule bfs_correct) simp_all
    then have "b \<longleftrightarrow> this \<in> sources_closure env s refs"
      by (auto simp: sources_closure_def q)
    with sd False b show ?thesis by (simp add: CheckCircularDependency_def)
  qed
qed

section \<open>Rollback\<close>

lemma SetCell_Raised_cells:
  assumes "SetCell env pos txt s = Raised e s'"
  shows "(\<forall>a c. cell_at s a = Some c \<longrightarrow> cell_at s' a = Some c)
         \<and> (\<forall>cell. GetCell env pos s = Inr (Some cell)
               \<longrightarrow> heap s' = heap s \<and> (\<forall>p. GetCell env p s' = GetCell env p s))"
proof (cases "IsValid (MAX_ROWS env) (MAX_COLS env) pos")
  case False
  with assms have "s' = s" by (subst (asm) SetCell.simps) simp
  then show ?thesis by simp
next
  case True
  let ?s0 = "MaybeIncreaseSizeToIncludePosition pos s"
  obtain found where g: "GetCell env pos s = Inr found"
    using True by (auto simp: GetCell_slot)
  then have g0: "GetConcreteCell env pos ?s0 = Inr found" by (simp add: GetConcreteCell_def)
  show ?thesis
  proof (cases found)
    case (Some cell)
    with assms True g0 obtain e0 where "Cell_Set env cell txt ?s0 = Raised e0 s'"
      by (subst (asm) SetCell.simps) (auto split: result.splits)
    then have "s' = ?s0" by (rule Cell_Set_Raised)
    then show ?thesis by simp
  next
    case None
    let ?s1 = "snd (make_Cell pos ?s0)"
    from assms True g0 None obtain e0 where
      "Cell_Set env (fst (make_Cell pos ?s0)) txt ?s1 = Raised e0 s'"
      by (subst (asm) SetCell.simps) (auto simp: case_prod_beta split: result.splits)
    then have "s' = ?s1" by (rule Cell_Set_Raised)
    then show ?thesis
      using g None by (auto simp: cell_at_make_Cell cell_at_def nth_append split: if_splits)
  qed
qed

text \<open>
  Claim C2.  If \<^verbatim>\<open>Cell::Set\<close> throws, the sheet is in the state it had before the call:
  the implementation of the cell with its cached value, its sources, its dependents and
  every other cell, hence everything that \<^verbatim>\<open>GetText\<close>, \<^verbatim>\<open>GetValue\<close> and
  \<^verbatim>\<open>GetReferencedCells\<close> read.  If \<^verbatim>\<open>Sheet::SetCell\<close> throws, every cell that existed
  is as it was; if the position had a cell, no cell was added and every lookup answers as
  before.
\<close>

theorem Set_all_or_nothing:
  "(Cell_Set env this txt s = Raised e s' \<longrightarrow> s' = s)
   \<and> (SetCell env pos txt s = Raised e s'
        \<longrightarrow> (\<forall>a c. cell_at s a = Some c \<longrightarrow> cell_at s' a = Some c)
          \<and> (\<forall>cell. GetCell env pos s = Inr (Some cell)
                \<longrightarrow> heap s' = heap s \<and> (\<forall>p. GetCell env p s' = GetCell env p s)))"
  using Cell_Set_Raised [of env this "txt" s e s'] SetCell_Raised_cells [of env pos "txt" s e s']
  by blast

theorem Set_all_or_nothing_witness:
  "Cell_Set example_env 1 ''=A1'' A1_reads_B1
     = Raised (CircularDependencyException ''Circular dependency detected'') A1_reads_B1
   \<and> SetCell example_env B1 ''=b1'' A1_reads_B1
     = Raised (FormulaException ''syntax error'') A1_reads_B1
   \<and> GetCell example_env B1 A1_reads_B1 = Inr (Some 1)
   \<and> heap A1_reads_B1 = heap A1_reads_B1"
proof -
  have c: "Cell_Set example_env 1 ''=A1'' A1_reads_B1
     = Raised (CircularDependencyException ''Circular dependency detected'') A1_reads_B1"
    by code_simp
  have f: "SetCell example_env B1 ''=b1'' A1_reads_B1
     = Raised (FormulaException ''syntax error'') A1_reads_B1"
    by code_simp
  have g: "GetCell example_env B1 A1_reads_B1 = Inr (Some 1)"
    by code_simp
  show ?thesis
    using c f g
      Set_all_or_nothing [of example_env 1 "''=A1''" A1_reads_B1
        "CircularDependencyException ''Circular dependency detected''" A1_reads_B1]
      Set_all_or_nothing [of example_env _ "''=b1''" A1_reads_B1
        "FormulaException ''syntax error''" A1_reads_B1 B1]
    by blast
qed

section \<open>Cycle rejection\<close>

lemma Set_new_impl_formula:
  assumes "txt \<noteq> []" "hd txt = FORMULA_SIGN" "length txt > 1"
    and "ParseFormula env (tl txt) = Inr ast"
    and "\<forall>p \<in> set (Formula_GetReferencedCells env ast). IsValid (MAX_ROWS env) (MAX_COLS env) p"
    and "no_dangling_source s"
  shows "Set_new_impl env this txt s =
     (if this \<in> sources_closure env s (Formula_GetReferencedCells env ast)
      then Raised (CircularDependencyException ''Circular dependency detected'') ()
      else Returned (FormulaImpl ast None, Formula_GetReferencedCells env ast) ())"
  using assms by (simp add: Set_new_impl_def CheckCircularDependency_correct)

lemma Cell_Set_cycle:
  assumes c: "cell_at s this = Some c" and ne: "txt \<noteq> Cell_GetText env c"
    and f: "txt \<noteq> []" "hd txt = FORMULA_SIGN" "length txt > 1"
    and p: "ParseFormula env (tl txt) = Inr ast"
    and v: "\<forall>p \<in> set (Formula_GetReferencedCells env ast). IsValid (MAX_ROWS env) (MAX_COLS env) p"
    and nd: "no_dangling_source s"
  shows "((\<exists>m s'. Cell_Set env this txt s = Raised (CircularDependencyException m) s')
            \<longleftrightarrow> this \<in> sources_closure env s (Formula_GetReferencedCells env ast))
         \<and> (this \<in> sources_closure env s (Formula_GetReferencedCells env ast)
            \<longrightarrow> Cell_Set env this txt s
                = Raised (CircularDependencyException ''Circular dependency detected'') s)"
proof (cases "this \<in> sources_closure env s (Formula_GetReferencedCells env ast)")
  case True
  have "Set_new_impl env this txt s
        = Raised (CircularDependencyException ''Circular dependency detected'') ()"
    using Set_new_impl_formula [OF f p v nd] True by simp
  then have "Cell_Set env this txt s
             = Raised (CircularDependencyException ''Circular dependency detected'') s"
    using c ne by (subst Cell_Set.simps) (simp add: put_impl_same)
  with True show ?thesis by simp
next
  case False
  have n: "Set_new_impl env this txt s
        = Returned (FormulaImpl ast None, Formula_GetReferencedCells env ast) ()"
    using Set_new_impl_formula [OF f p v nd] False by simp
  have "UpdateDependencies env this (Formula_GetReferencedCells env ast)
          (put_impl this (FormulaImpl ast None) s) \<noteq> Raised e s1" for e s1
    using v by (rule UpdateDependencies_not_Raised)
  then have "Cell_Set env this txt s \<noteq> Raised e s'" for e s'
    using c ne n by (subst Cell_Set.simps) (auto split: result.splits option.splits)
  with False show ?thesis by simp
qed

text \<open>
  Claim C4.  For a text that differs from the current one and parses as a formula whose
  references are valid positions, on a sheet without dangling source pointers,
  \<^verbatim>\<open>Cell::Set\<close> throws \<^verbatim>\<open>CircularDependencyException\<close> exactly if the cell is reachable
  along source edges from the existing cells at the referenced positions (the cell itself
  included), and then the state is unchanged.
\<close>

theorem Set_rejects_cycles:
  "cell_at s this = Some c \<and> txt \<noteq> Cell_GetText env c
   \<and> txt \<noteq> [] \<and> hd txt = FORMULA_SIGN \<and> length txt > 1
   \<and> ParseFormula env (tl txt) = Inr ast
   \<and> (\<forall>p \<in> set (Formula_GetReferencedCells env ast). IsValid (MAX_ROWS env) (MAX_COLS env) p)
   \<and> no_dangling_source s
   \<longrightarrow> ((\<exists>m s'. Cell_Set env this txt s = Raised (CircularDependencyException m) s')
            \<longleftrightarrow> this \<in> sources_closure env s (Formula_GetReferencedCells env ast))
       \<and> (this \<in> sources_closure env s (Formula_GetReferencedCells env ast)
            \<longrightarrow> Cell_Set env this txt s
                = Raised (CircularDependencyException ''Circular dependency detected'') s)"
  using Cell_Set_cycle [of s this c "txt" env ast] by blast

theorem Set_rejects_cycles_witness:
  "SetCell example_env A1 ''=B1'' new_Sheet = Returned () A1_reads_B1
   \<and> SetCell example_env B1 ''=A1'' A1_reads_B1
       = Raised (CircularDependencyException ''Circular dependency detected'') A1_reads_B1
   \<and> GetCell example_env B1 A1_reads_B1 = Inr (Some 1)
   \<and> GetCell example_env A1 A1_reads_B1 = Inr (Some 0)
   \<and> map_option (Cell_GetText example_env) (cell_at A1_reads_B1 1) = Some []
   \<and> map_option dependent_cells (cell_at A1_reads_B1 0) = Some []
   \<and> no_dangling_source A1_reads_B1
   \<and> Cell_Set example_env 1 ''=A1'' A1_reads_B1
       = Raised (CircularDependencyException ''Circular dependency detected'') A1_reads_B1
   \<and> 1 \<in> sources_closure example_env A1_reads_B1 [A1]"
proof -
  have scenario: "SetCell example_env A1 ''=B1'' new_Sheet = Returned () A1_reads_B1"
    "SetCell example_env B1 ''=A1'' A1_reads_B1
       = Raised (CircularDependencyException ''Circular dependency detected'') A1_reads_B1"
    "GetCell example_env B1 A1_reads_B1 = Inr (Some 1)"
    "GetCell example_env A1 A1_reads_B1 = Inr (Some 0)"
    "map_option (Cell_GetText example_env) (cell_at A1_reads_B1 1) = Some []"
    "map_option dependent_cells (cell_at A1_reads_B1 0) = Some []"
    by code_simp+
  have hyp: "cell_at A1_reads_B1 1
               = Some \<lparr>impl = EmptyImpl, source_cells = [], dependent_cells = [0]\<rparr>"
    "''=A1'' \<noteq> Cell_GetText example_env
                  \<lparr>impl = EmptyImpl, source_cells = [], dependent_cells = [0]\<rparr>"
    "''=A1'' \<noteq> []" "hd ''=A1'' = FORMULA_SIGN" "length ''=A1'' > 1"
    "ParseFormula example_env (tl ''=A1'') = Inr [A1]"
    "Formula_GetReferencedCells example_env [A1] = [A1]"
    "IsValid (MAX_ROWS example_env) (MAX_COLS example_env) A1"
    "no_dangling_source A1_reads_B1"
    by code_simp+
  have raised: "Cell_Set example_env 1 ''=A1'' A1_reads_B1
       = Raised (CircularDependencyException ''Circular dependency detected'') A1_reads_B1"
    by code_simp
  have "1 \<in> sources_closure example_env A1_reads_B1 [A1]"
    using Set_rejects_cycles [of A1_reads_B1 1
        "\<lparr>impl = EmptyImpl, source_cells = [], dependent_cells = [0]\<rparr>" "''=A1''"
        example_env "[A1]"] hyp raised
    by auto
  with scenario hyp(9) raised show ?thesis by simp
qed

section \<open>Empty cells\<close>

lemma has_text_slot:
  "r < length (cells s) \<Longrightarrow> c < length (cells s ! r) \<Longrightarrow>
   has_text env s r c =
     (case slot (cells s) r c of
        None \<Rightarrow> False
      | Some a \<Rightarrow> (case cell_at s a of None \<Rightarrow> False | Some cl \<Rightarrow> Cell_GetText env cl \<noteq> []))"
  by (simp add: has_text_def slot_def)

lemma fold_grid_extend:
  fixes G :: "nat \<Rightarrow> nat \<Rightarrow> 'b \<Rightarrow> 'b" and G' :: "nat \<Rightarrow> nat \<Rightarrow> 'b \<Rightarrow> 'b"
  assumes N: "N \<le> N'"
    and n: "\<And>r. r < N \<Longrightarrow> n r \<le> n' r"
    and same: "\<And>r c. r < N \<Longrightarrow> c < n r \<Longrightarrow> G' r c = G r c"
    and new_cols: "\<And>r c. r < N \<Longrightarrow> n r \<le> c \<Longrightarrow> c < n' r \<Longrightarrow> G' r c = id"
    and new_rows: "\<And>r c. N \<le> r \<Longrightarrow> r < N' \<Longrightarrow> c < n' r \<Longrightarrow> G' r c = id"
  shows "fold (\<lambda>r acc. fold (G' r) [0..<n' r] acc) [0..<N'] a
         = fold (\<lambda>r acc. fold (G r) [0..<n r] acc) [0..<N] a"
proof -
  have inner_old: "fold (G' r) [0..<n' r] acc = fold (G r) [0..<n r] acc" if r: "r < N" for r acc
  proof -
    have sp: "[0..<n' r] = [0..<n r] @ [n r..<n' r]"
      using n [OF r] by (metis le_add_diff_inverse upt_add_eq_append zero_le)
    have tail: "fold (G' r) [n r..<n' r] = id"
      by (rule fold_id) (simp add: new_cols [OF r])
    have hd: "fold (G' r) [0..<n r] acc = fold (G r) [0..<n r] acc"
      by (rule fold_cong) (simp_all add: same [OF r])
    show ?thesis by (simp add: sp tail hd)
  qed
  have inner_new: "fold (G' r) [0..<n' r] = id" if "N \<le> r" "r < N'" for r
    by (rule fold_id) (simp add: new_rows [OF that])
  have sp: "[0..<N'] = [0..<N] @ [N..<N']"
    using N by (metis le_add_diff_inverse upt_add_eq_append zero_le)
  have tail: "fold (\<lambda>r acc. fold (G' r) [0..<n' r] acc) [N..<N'] = id"
    by (rule fold_id) (auto simp: inner_new fun_eq_iff)
  have hd: "fold (\<lambda>r acc. fold (G' r) [0..<n' r] acc) [0..<N] a
            = fold (\<lambda>r acc. fold (G r) [0..<n r] acc) [0..<N] a"
    by (rule fold_cong) (simp_all add: inner_old fun_eq_iff)
  show ?thesis by (simp add: sp tail hd)
qed

lemma length_cells_MaybeIncrease:
  "length (cells s) \<le> length (cells (MaybeIncreaseSizeToIncludePosition pos s))"
  by (auto simp: MaybeIncreaseSizeToIncludePosition_def Let_def length_ResizeIfNeeded)

lemma length_row_MaybeIncrease:
  assumes "r < length (cells s)"
  shows "length (cells s ! r) \<le> length (cells (MaybeIncreaseSizeToIncludePosition pos s) ! r)"
proof -
  define rs where "rs = ResizeIfNeeded [] (cells s) (row pos)"
  have r: "r < length rs" using assms by (auto simp: rs_def length_ResizeIfNeeded)
  then have n: "rs ! r = cells s ! r" using assms by (simp add: rs_def nth_ResizeIfNeeded)
  have "length (rs ! r) \<le> length (ResizeIfNeeded None (rs ! r) (col pos))"
    by (auto simp: length_ResizeIfNeeded)
  then show ?thesis
    using r n by (simp add: MaybeIncreaseSizeToIncludePosition_def Let_def rs_def [symmetric])
qed

lemma length_cells_make_Cell [simp]: "length (cells (snd (make_Cell pos s))) = length (cells s)"
  by (simp add: make_Cell_def Let_def)

lemma length_row_make_Cell [simp]:
  "length (cells (snd (make_Cell pos s)) ! r) = length (cells s ! r)"
proof (cases "nat (row pos) < length (cells s)")
  case True
  then show ?thesis by (simp add: make_Cell_def Let_def nth_list_update)
next
  case False
  then show ?thesis by (simp add: make_Cell_def Let_def list_update_beyond)
qed

lemma Cell_GetText_new_Cell [simp]: "Cell_GetText env new_Cell = []"
  by (simp add: Cell_GetText_def new_Cell_def)

lemma has_text_new_cell:
  fixes s :: "'a Sheet"
  assumes absent: "slot (cells s) (nat (row pos)) (nat (col pos)) = None"
    and r: "r < length (cells s1)" and c: "c < length (cells s1 ! r)"
    and s1: "s1 = snd (make_Cell pos (MaybeIncreaseSizeToIncludePosition pos s))"
  shows "has_text env s1 r c \<longleftrightarrow>
           r < length (cells s) \<and> c < length (cells s ! r) \<and> has_text env s r c"
proof -
  let ?s0 = "MaybeIncreaseSizeToIncludePosition pos s"
  have sl: "slot (cells s1) r c =
     (if r = nat (row pos) \<and> c = nat (col pos) \<and> nat (row pos) < length (cells ?s0)
         \<and> nat (col pos) < length (cells ?s0 ! nat (row pos))
      then Some (length (heap s)) else slot (cells s) r c)"
    by (simp add: s1 slot_make_Cell)
  have ca: "cell_at s1 a = (if a = length (heap s) then Some new_Cell else cell_at s a)" for a
    by (simp add: s1 cell_at_make_Cell)
  have dead: "cell_at s (length (heap s)) = None" by (simp add: cell_at_def)
  have old: "(case slot (cells s) r c of
        None \<Rightarrow> False
      | Some a \<Rightarrow> (case cell_at s a of None \<Rightarrow> False | Some cl \<Rightarrow> Cell_GetText env cl \<noteq> []))
     \<longleftrightarrow> r < length (cells s) \<and> c < length (cells s ! r) \<and> has_text env s r c"
  proof (cases "r < length (cells s) \<and> c < length (cells s ! r)")
    case True
    then show ?thesis by (simp add: has_text_slot)
  next
    case False
    then have "slot (cells s) r c = None" by (auto simp: slot_def)
    with False show ?thesis by auto
  qed
  have "has_text env s1 r c \<longleftrightarrow>
     (case slot (cells s) r c of
        None \<Rightarrow> False
      | Some a \<Rightarrow> (case cell_at s a of None \<Rightarrow> False | Some cl \<Rightarrow> Cell_GetText env cl \<noteq> []))"
    using absent dead
    by (auto simp: has_text_slot [OF r c] sl ca split: option.splits if_splits)
  with old show ?thesis by simp
qed

lemma GetActualSize_new_cell:
  assumes absent: "slot (cells s) (nat (row pos)) (nat (col pos)) = None"
  shows "GetActualSize env (snd (make_Cell pos (MaybeIncreaseSizeToIncludePosition pos s)))
         = GetActualSize env s"
proof -
  define s1 where "s1 = snd (make_Cell pos (MaybeIncreaseSizeToIncludePosition pos s))"
  define G where "G = (\<lambda>s r c (acc :: int \<times> int). case acc of (max_row, max_col) \<Rightarrow>
                     if has_text env s r c then (max max_row (int r), max max_col (int c))
                     else (max_row, max_col))"
  have len: "length (cells s) \<le> length (cells s1)"
    by (simp add: s1_def length_cells_MaybeIncrease)
  have row: "length (cells s ! r) \<le> length (cells s1 ! r)" if "r < length (cells s)" for r
    using that by (simp add: s1_def length_row_MaybeIncrease)
  have ht: "has_text env s1 r c \<longleftrightarrow>
           r < length (cells s) \<and> c < length (cells s ! r) \<and> has_text env s r c"
    if "r < length (cells s1)" "c < length (cells s1 ! r)" for r c
    using absent that s1_def by (rule has_text_new_cell)
  have "fold (\<lambda>r acc. fold (G s1 r) [0..<length (cells s1 ! r)] acc) [0..<length (cells s1)] a
        = fold (\<lambda>r acc. fold (G s r) [0..<length (cells s ! r)] acc) [0..<length (cells s)] a"
    for a
  proof (rule fold_grid_extend [OF len row])
    fix r c assume "r < length (cells s)" "c < length (cells s ! r)"
    then show "G s1 r c = G s r c"
      using ht [of r c] len row [of r] by (auto simp: G_def fun_eq_iff)
  next
    fix r c assume "r < length (cells s)" "length (cells s ! r) \<le> c" "c < length (cells s1 ! r)"
    then show "G s1 r c = id"
      using ht [of r c] len by (auto simp: G_def fun_eq_iff)
  next
    fix r c assume "length (cells s) \<le> r" "r < length (cells s1)" "c < length (cells s1 ! r)"
    then show "G s1 r c = id"
      using ht [of r c] by (auto simp: G_def fun_eq_iff)
  qed
  then show ?thesis
    unfolding GetActualSize_def s1_def [symmetric] G_def by simp
qed


lemma GetCell_make_Cell_pos:
  assumes v: "IsValid (MAX_ROWS env) (MAX_COLS env) pos"
  shows "GetCell env pos (snd (make_Cell pos (MaybeIncreaseSizeToIncludePosition pos s)))
         = Inr (Some (length (heap s)))"
proof -
  have "0 \<le> row pos" "0 \<le> col pos" using v by (auto simp: IsValid_def)
  then have "nat (row pos) < length (cells (MaybeIncreaseSizeToIncludePosition pos s))
         \<and> nat (col pos) < length (cells (MaybeIncreaseSizeToIncludePosition pos s) ! nat (row pos))"
    by (rule MaybeIncrease_in_range)
  then show ?thesis
    using v by (simp add: GetCell_slot slot_make_Cell)
qed

lemma ClearCell_unreferenced:
  assumes v: "IsValid (MAX_ROWS env) (MAX_COLS env) pos"
    and g: "GetCell env pos s = Inr (Some a)"
    and c: "cell_at s a = Some cl" and d: "dependent_cells cl = []"
  shows "ClearCell env pos s = Returned () (reset_Cell pos a s)
         \<and> GetCell env pos (reset_Cell pos a s) = Inr None"
proof -
  have "slot (cells s) (nat (row pos)) (nat (col pos)) = Some a"
    using g v by (simp add: GetCell_slot)
  then have "nat (row pos) < length (cells s)
             \<and> nat (col pos) < length (cells s ! nat (row pos))"
    by (simp add: slot_def split: if_splits)
  then have "slot (cells (reset_Cell pos a s)) (nat (row pos)) (nat (col pos)) = None"
    by (simp add: reset_Cell_def slot_update)
  then have "GetCell env pos (reset_Cell pos a s) = Inr None"
    using v by (simp add: GetCell_slot)
  then show ?thesis
    using g c d by (simp add: ClearCell_def GetConcreteCell_def IsReferenced_def)
qed

lemma SetCell_empty_new:
  assumes v: "IsValid (MAX_ROWS env) (MAX_COLS env) pos"
    and absent: "GetCell env pos s = Inr None"
  shows "\<exists>s1 a. SetCell env pos [] s = Returned () s1
           \<and> GetCell env pos s1 = Inr (Some a)
           \<and> cell_at s1 a = Some new_Cell
           \<and> Cell_GetText env (new_Cell :: 'a Cell) = []
           \<and> Cell_GetValue (Suc depth) env a s1 = Some (Returned (VDouble 0) s1)
           \<and> GetPrintableSize env s1 = GetPrintableSize env s
           \<and> (\<exists>s2. ClearCell env pos s1 = Returned () s2 \<and> GetCell env pos s2 = Inr None)"
proof -
  define s1 where "s1 = snd (make_Cell pos (MaybeIncreaseSizeToIncludePosition pos s))"
  have set: "SetCell env pos [] s = Returned () s1"
    unfolding s1_def using v absent by (rule SetCell_absent)
  have g: "GetCell env pos s1 = Inr (Some (length (heap s)))"
    unfolding s1_def using v by (rule GetCell_make_Cell_pos)
  have c: "cell_at s1 (length (heap s)) = Some new_Cell"
    by (simp add: s1_def cell_at_make_Cell)
  have val: "Cell_GetValue (Suc depth) env (length (heap s)) s1 = Some (Returned (VDouble 0) s1)"
    using c by (simp add: new_Cell_def)
  have "slot (cells s) (nat (row pos)) (nat (col pos)) = None"
    using absent v by (simp add: GetCell_slot)
  then have size: "GetPrintableSize env s1 = GetPrintableSize env s"
    by (simp add: GetPrintableSize_def s1_def GetActualSize_new_cell)
  have clear: "ClearCell env pos s1 = Returned () (reset_Cell pos (length (heap s)) s1)
         \<and> GetCell env pos (reset_Cell pos (length (heap s)) s1) = Inr None"
    using v g c by (rule ClearCell_unreferenced) (simp add: new_Cell_def)
  show ?thesis
    using set g c val size clear by auto
qed

lemma SetCell_keeps_cell:
  assumes "state_of (SetCell env q txt s) = Some s'" "GetCell env p s = Inr (Some b)"
    "cell_at s b \<noteq> None"
  shows "GetCell env p s' = Inr (Some b) \<and> cell_at s' b \<noteq> None"
proof -
  have "keeps_cells env s s'" using assms(1) by (rule keeps_cells_SetCell)
  then show ?thesis using assms(2,3) by (simp add: keeps_cells_def)
qed

text \<open>
  Claim C9.  \<^verbatim>\<open>SetCell(pos, "")\<close> at a valid position without a cell returns, and
  afterwards the position has a cell in the state of a newly constructed one: empty text,
  value \<open>0.0\<close>; the printable size is as before, and \<^verbatim>\<open>ClearCell(pos)\<close> removes the cell
  again.  No call of \<^verbatim>\<open>SetCell\<close>, returning or throwing, at any position and with any
  text, removes a cell from its position.
\<close>

theorem SetCell_empty_materialises:
  "(IsValid (MAX_ROWS env) (MAX_COLS env) pos \<and> GetCell env pos s = Inr None
      \<longrightarrow> (\<exists>s1 a. SetCell env pos [] s = Returned () s1
             \<and> GetCell env pos s1 = Inr (Some a)
             \<and> cell_at s1 a = Some new_Cell
             \<and> Cell_GetText env (new_Cell :: 'a Cell) = []
             \<and> Cell_GetValue (Suc depth) env a s1 = Some (Returned (VDouble 0) s1)
             \<and> GetPrintableSize env s1 = GetPrintableSize env s
             \<and> (\<exists>s2. ClearCell env pos s1 = Returned () s2 \<and> GetCell env pos s2 = Inr None)))
   \<and> (state_of (SetCell env q txt (s :: 'a Sheet)) = Some s' \<and> GetCell env p s = Inr (Some b)
        \<and> cell_at s b \<noteq> None
      \<longrightarrow> GetCell env p s' = Inr (Some b) \<and> cell_at s' b \<noteq> None)"
proof (intro conjI impI)
  assume "IsValid (MAX_ROWS env) (MAX_COLS env) pos \<and> GetCell env pos s = Inr None"
  then show "\<exists>s1 a. SetCell env pos [] s = Returned () s1
             \<and> GetCell env pos s1 = Inr (Some a)
             \<and> cell_at s1 a = Some new_Cell
             \<and> Cell_GetText env (new_Cell :: 'a Cell) = []
             \<and> Cell_GetValue (Suc depth) env a s1 = Some (Returned (VDouble 0) s1)
             \<and> GetPrintableSize env s1 = GetPrintableSize env s
             \<and> (\<exists>s2. ClearCell env pos s1 = Returned () s2 \<and> GetCell env pos s2 = Inr None)"
    using SetCell_empty_new [of env pos s depth] by simp
next
  assume a: "state_of (SetCell env q txt s) = Some s' \<and> GetCell env p s = Inr (Some b)
        \<and> cell_at s b \<noteq> None"
  then show "GetCell env p s' = Inr (Some b)" using SetCell_keeps_cell by blast
  from a show "cell_at s' b \<noteq> None" using SetCell_keeps_cell by blast
qed


theorem SetCell_empty_materialises_witness:
  "IsValid (MAX_ROWS example_env) (MAX_COLS example_env) B2
   \<and> GetCell example_env B2 new_Sheet = Inr None
   \<and> SetCell example_env B2 [] new_Sheet = Returned () B2_empty
   \<and> GetCell example_env B2 B2_empty = Inr (Some 0)
   \<and> cell_at B2_empty 0 = Some new_Cell
   \<and> GetPrintableSize example_env B2_empty = GetPrintableSize example_env new_Sheet
   \<and> SetCell example_env A1 ''=B1+B2'' B2_empty = Returned () A1_sums_B1_B2
   \<and> GetCell example_env B2 A1_sums_B1_B2 = Inr (Some 0)
   \<and> cell_at A1_sums_B1_B2 0 \<noteq> None"
proof -
  have h: "IsValid (MAX_ROWS example_env) (MAX_COLS example_env) B2"
    "GetCell example_env B2 new_Sheet = Inr None"
    by code_simp+
  have r1: "SetCell example_env B2 [] new_Sheet = Returned () B2_empty"
    by code_simp
  have r2: "GetCell example_env B2 B2_empty = Inr (Some 0)"
    by code_simp
  have r3: "cell_at B2_empty 0 = Some new_Cell"
    by code_simp
  have r4: "SetCell example_env A1 ''=B1+B2'' B2_empty = Returned () A1_sums_B1_B2"
    by code_simp
  from SetCell_empty_materialises [of example_env B2 new_Sheet 0] h obtain s1 where
    "SetCell example_env B2 [] new_Sheet = Returned () s1"
    "GetPrintableSize example_env s1 = GetPrintableSize example_env new_Sheet"
    by blast
  then have size: "GetPrintableSize example_env B2_empty = GetPrintableSize example_env new_Sheet"
    by (simp add: r1)
  have alive: "cell_at B2_empty 0 \<noteq> None" by (simp add: r3)
  have st: "state_of (SetCell example_env A1 ''=B1+B2'' B2_empty) = Some A1_sums_B1_B2"
    by (simp add: r4)
  have kept: "GetCell example_env B2 A1_sums_B1_B2 = Inr (Some 0)
              \<and> cell_at A1_sums_B1_B2 0 \<noteq> None"
    using st r2 alive
      SetCell_empty_materialises [of example_env B2 B2_empty 0 A1 "''=B1+B2''" A1_sums_B1_B2 B2 0]
    by blast
  show ?thesis
    using h r1 r2 r3 r4 size kept by blast
qed

section \<open>Printing\<close>







lemma printed_field_PrintTexts:
  "printed_field env (PrintTexts_cell env) r c s = Some (text_field env s r c, s)"
  by (auto simp: printed_field_def PrintTexts_cell_def text_field_def split: option.splits)






section \<open>Idempotence of Set\<close>

subsection \<open>The effect of the steps on the cells\<close>


lemma Sheet_eqI:
  assumes "cells s' = cells s" "length (heap s') = length (heap s)"
    and "\<And>a. cell_at s' a = cell_at s a"
  shows "s' = (s :: 'a Sheet)"
proof -
  have "heap s' = heap s"
  proof (rule nth_equalityI)
    show "length (heap s') = length (heap s)" by fact
    fix i assume "i < length (heap s')"
    then show "heap s' ! i = heap s ! i"
      using assms(2) assms(3) [of i] by (simp add: cell_at_def)
  qed
  with assms(1) show ?thesis by simp
qed

lemma cells_mapped_id: "cells_mapped f s s' \<Longrightarrow> (\<And>a c. cell_at s a = Some c \<Longrightarrow> f a c = c) \<Longrightarrow> s' = s"
  unfolding cells_mapped_def
  by (intro Sheet_eqI) (auto simp: map_option_case split: option.splits)

lemma cells_mapped_refl: "cells_mapped (\<lambda>a c. c) s s"
  by (simp add: cells_mapped_def option.map_ident)

lemma cells_mapped_trans:
  "cells_mapped f s s1 \<Longrightarrow> cells_mapped g s1 s2 \<Longrightarrow> cells_mapped (\<lambda>a c. g a (f a c)) s s2"
  by (auto simp: cells_mapped_def option.map_comp comp_def)

lemma cells_mapped_cong:
  "cells_mapped f s s' \<Longrightarrow> (\<And>a c. cell_at s a = Some c \<Longrightarrow> f a c = g a c) \<Longrightarrow> cells_mapped g s s'"
  unfolding cells_mapped_def
  by (auto simp: map_option_case split: option.splits)

lemma cells_mapped_put_cell:
  "cell_at s x = Some cx \<Longrightarrow> cells_mapped (\<lambda>a c. if a = x then c' else c) s (put_cell x c' s)"
  by (auto simp: cells_mapped_def cell_at_put_cell_alive map_option_case split: option.splits)

lemma GetCell_cells_mapped: "cells_mapped f s s' \<Longrightarrow> GetCell env p s' = GetCell env p s"
  by (simp add: cells_mapped_def GetCell_def)

lemma set_erase_idem [simp]: "set_erase a (set_erase a xs) = set_erase a xs"
  by (simp add: set_erase_def)

lemma Unsubscribe_loop_mapped:
  "UnsubscribeFromSources_loop this xs s = Some s' \<Longrightarrow>
   cells_mapped (\<lambda>a c. if a \<in> set xs
                        then c\<lparr>dependent_cells := set_erase this (dependent_cells c)\<rparr> else c) s s'"
proof (induction xs arbitrary: s)
  case Nil
  then show ?case by (simp add: cells_mapped_refl)
next
  case (Cons x xs)
  from Cons.prems obtain cx where cx: "cell_at s x = Some cx"
    and run: "UnsubscribeFromSources_loop this xs
                (put_cell x (cx\<lparr>dependent_cells := set_erase this (dependent_cells cx)\<rparr>) s) = Some s'"
    by (auto split: option.splits)
  note m1 = cells_mapped_put_cell [OF cx, of "cx\<lparr>dependent_cells := set_erase this (dependent_cells cx)\<rparr>"]
  note m2 = Cons.IH [OF run]
  show ?case
    by (rule cells_mapped_cong [OF cells_mapped_trans [OF m1 m2]]) (auto simp: cx)
qed

lemma Unsubscribe_loop_alive:
  "UnsubscribeFromSources_loop this xs s = Some s' \<Longrightarrow> \<forall>x \<in> set xs. cell_at s x \<noteq> None"
proof (induction xs arbitrary: s)
  case Nil
  then show ?case by simp
next
  case (Cons x xs)
  from Cons.prems obtain cx where cx: "cell_at s x = Some cx"
    and run: "UnsubscribeFromSources_loop this xs
                (put_cell x (cx\<lparr>dependent_cells := set_erase this (dependent_cells cx)\<rparr>) s) = Some s'"
    by (auto split: option.splits)
  from Cons.IH [OF run] cx show ?case
    by (auto simp: cell_at_put_cell_alive split: if_splits)
qed

lemma Unsubscribe_loop_total:
  "\<forall>x \<in> set xs. cell_at s x \<noteq> None \<Longrightarrow> \<exists>s'. UnsubscribeFromSources_loop this xs s = Some s'"
proof (induction xs arbitrary: s)
  case Nil
  then show ?case by simp
next
  case (Cons x xs)
  then obtain cx where cx: "cell_at s x = Some cx" by auto
  have "\<forall>y \<in> set xs. cell_at (put_cell x (cx\<lparr>dependent_cells := set_erase this (dependent_cells cx)\<rparr>) s) y \<noteq> None"
    using Cons.prems cx by (auto simp: cell_at_put_cell_alive)
  from Cons.IH [OF this] cx show ?case by simp
qed

lemma Unsubscribe_mapped:
  assumes "UnsubscribeFromSources this s = Some s'" "cell_at s this = Some c"
  shows "cells_mapped (\<lambda>a c'. (if a \<in> set (source_cells c)
                        then c'\<lparr>dependent_cells := set_erase this (dependent_cells c')\<rparr> else c')
                       \<lparr>source_cells := (if a = this then [] else source_cells c')\<rparr>) s s'"
proof -
  from assms obtain s1 c1 where
    l: "UnsubscribeFromSources_loop this (source_cells c) s = Some s1"
    and c1: "cell_at s1 this = Some c1" and s': "s' = put_cell this (c1\<lparr>source_cells := []\<rparr>) s1"
    by (auto simp: UnsubscribeFromSources_def split: option.splits)
  note m1 = Unsubscribe_loop_mapped [OF l]
  note m2 = cells_mapped_put_cell [OF c1, of "c1\<lparr>source_cells := []\<rparr>"]
  have c1': "c1 = (if this \<in> set (source_cells c)
                   then c\<lparr>dependent_cells := set_erase this (dependent_cells c)\<rparr> else c)"
    using m1 c1 assms(2) by (auto simp: cells_mapped_def)
  show ?thesis
    unfolding s'
    by (rule cells_mapped_cong [OF cells_mapped_trans [OF m1 m2]]) (auto simp: c1' assms(2))
qed

lemma Unsubscribe_total:
  assumes "cell_at s this = Some c" "\<forall>x \<in> set (source_cells c). cell_at s x \<noteq> None"
  shows "\<exists>s'. UnsubscribeFromSources this s = Some s'"
proof -
  from Unsubscribe_loop_total [OF assms(2)] obtain s1 where
    l: "UnsubscribeFromSources_loop this (source_cells c) s = Some s1" by blast
  have "cell_at s1 this \<noteq> None"
    using Unsubscribe_loop_mapped [OF l] assms(1) by (auto simp: cells_mapped_def)
  then show ?thesis
    using assms(1) l by (auto simp: UnsubscribeFromSources_def)
qed

lemma subscribe_mapped:
  assumes "subscribe this src s = Some s'" "src \<noteq> this"
  shows "cells_mapped (\<lambda>a c. if a = this then c\<lparr>source_cells := set_insert src (source_cells c)\<rparr>
                        else if a = src
                        then c\<lparr>dependent_cells := set_insert this (dependent_cells c)\<rparr>
                        else c) s s'"
proof -
  from assms obtain c sc where c: "cell_at s this = Some c"
    and sc: "cell_at (put_cell this (c\<lparr>source_cells := set_insert src (source_cells c)\<rparr>) s) src = Some sc"
    and s': "s' = put_cell src (sc\<lparr>dependent_cells := set_insert this (dependent_cells sc)\<rparr>)
                    (put_cell this (c\<lparr>source_cells := set_insert src (source_cells c)\<rparr>) s)"
    by (auto simp: subscribe_def Let_def split: option.splits)
  note m1 = cells_mapped_put_cell [OF c, of "c\<lparr>source_cells := set_insert src (source_cells c)\<rparr>"]
  note m2 = cells_mapped_put_cell [OF sc, of "sc\<lparr>dependent_cells := set_insert this (dependent_cells sc)\<rparr>"]
  have sc': "cell_at s src = Some sc"
    using sc c assms(2) by (simp add: cell_at_put_cell_alive)
  show ?thesis
    unfolding s'
    by (rule cells_mapped_cong [OF cells_mapped_trans [OF m1 m2]]) (auto simp: c sc' assms(2))
qed

lemma subscribe_total:
  "cell_at s this \<noteq> None \<Longrightarrow> cell_at s src \<noteq> None \<Longrightarrow> \<exists>s'. subscribe this src s = Some s'"
  by (auto simp: subscribe_def Let_def cell_at_put_cell_alive split: option.splits)

lemma InvalidateCache_idem [simp]: "InvalidateCache (InvalidateCache i) = InvalidateCache i"
  by (cases i) simp_all

lemma Invalidate_loop_mapped:
  "InvalidateCacheDownstream_loop st visited s = Some s' \<Longrightarrow>
   \<exists>X. cells_mapped (\<lambda>a c. if a \<in> X then c\<lparr>impl := InvalidateCache (impl c)\<rparr> else c) s s'
      \<and> X \<inter> set visited = {} \<and> set st - set visited \<subseteq> X
      \<and> (\<forall>a \<in> X. \<forall>c. cell_at s a = Some c \<longrightarrow> set (dependent_cells c) \<subseteq> X \<union> set visited)"
proof (induction st visited s rule: InvalidateCacheDownstream_loop.induct)
  case (1 visited s)
  then have "s' = s" by (simp add: InvalidateCacheDownstream_loop.simps)
  then show ?case
    by (intro exI [of _ "{}"]) (simp add: cells_mapped_refl)
next
  case (2 cur st visited s)
  show ?case
  proof (cases "cur \<in> set visited")
    case True
    with 2(3) have "InvalidateCacheDownstream_loop st visited s = Some s'"
      by (simp add: InvalidateCacheDownstream_loop.simps)
    from 2(1) [OF True this] obtain X where
      "cells_mapped (\<lambda>a c. if a \<in> X then c\<lparr>impl := InvalidateCache (impl c)\<rparr> else c) s s'"
      "X \<inter> set visited = {}" "set st - set visited \<subseteq> X"
      "\<forall>a \<in> X. \<forall>c. cell_at s a = Some c \<longrightarrow> set (dependent_cells c) \<subseteq> X \<union> set visited"
      by blast
    with True show ?thesis by (intro exI [of _ X]) auto
  next
    case False
    with 2(3) obtain c where c: "cell_at s cur = Some c"
      and run: "InvalidateCacheDownstream_loop (rev (dependent_cells c) @ st) (cur # visited)
                  (put_cell cur (c\<lparr>impl := InvalidateCache (impl c)\<rparr>) s) = Some s'"
      by (auto simp: InvalidateCacheDownstream_loop.simps split: option.splits)
    from 2(2) [OF False c run] obtain X where
      X: "cells_mapped (\<lambda>a c. if a \<in> X then c\<lparr>impl := InvalidateCache (impl c)\<rparr> else c)
            (put_cell cur (c\<lparr>impl := InvalidateCache (impl c)\<rparr>) s) s'"
      "X \<inter> set (cur # visited) = {}"
      "set (rev (dependent_cells c) @ st) - set (cur # visited) \<subseteq> X"
      and closed: "\<And>a c0. a \<in> X \<Longrightarrow>
          cell_at (put_cell cur (c\<lparr>impl := InvalidateCache (impl c)\<rparr>) s) a = Some c0 \<Longrightarrow>
          set (dependent_cells c0) \<subseteq> X \<union> set (cur # visited)"
      by blast
    note m1 = cells_mapped_put_cell [OF c, of "c\<lparr>impl := InvalidateCache (impl c)\<rparr>"]
    have "cells_mapped (\<lambda>a c. if a \<in> insert cur X then c\<lparr>impl := InvalidateCache (impl c)\<rparr> else c) s s'"
      by (rule cells_mapped_cong [OF cells_mapped_trans [OF m1 X(1)]]) (use X(2) c in auto)
    moreover have "insert cur X \<inter> set visited = {}" using X(2) False by auto
    moreover have "set (cur # st) - set visited \<subseteq> insert cur X" using X(3) by auto
    moreover have "set (dependent_cells c0) \<subseteq> insert cur X \<union> set visited"
      if "a \<in> insert cur X" "cell_at s a = Some c0" for a c0
    proof (cases "a = cur")
      case True
      with that(2) c have "c0 = c" by simp
      with X(3) show ?thesis by auto
    next
      case ne: False
      with that(1) have ax: "a \<in> X" by simp
      have "cell_at (put_cell cur (c\<lparr>impl := InvalidateCache (impl c)\<rparr>) s) a = Some c0"
        using that(2) ne c by (simp add: cell_at_put_cell_alive)
      from closed [OF ax this] show ?thesis by auto
    qed
    ultimately show ?thesis by blast
  qed
qed

lemma Invalidate_loop_idem:
  "InvalidateCacheDownstream_loop st visited s = Some s' \<Longrightarrow>
   InvalidateCacheDownstream_loop st visited s' = Some s'"
proof (induction st visited s rule: InvalidateCacheDownstream_loop.induct)
  case (1 visited s)
  then show ?case by (simp add: InvalidateCacheDownstream_loop.simps)
next
  case (2 cur st visited s)
  show ?case
  proof (cases "cur \<in> set visited")
    case True
    with 2(3) have "InvalidateCacheDownstream_loop st visited s = Some s'"
      by (simp add: InvalidateCacheDownstream_loop.simps)
    from 2(1) [OF True this] True show ?thesis
      by (simp add: InvalidateCacheDownstream_loop.simps)
  next
    case False
    with 2(3) obtain c where c: "cell_at s cur = Some c"
      and run: "InvalidateCacheDownstream_loop (rev (dependent_cells c) @ st) (cur # visited)
                  (put_cell cur (c\<lparr>impl := InvalidateCache (impl c)\<rparr>) s) = Some s'"
      by (auto simp: InvalidateCacheDownstream_loop.simps split: option.splits)
    let ?c2 = "c\<lparr>impl := InvalidateCache (impl c)\<rparr>"
    from Invalidate_loop_mapped [OF run] obtain X where
      X: "cells_mapped (\<lambda>a c. if a \<in> X then c\<lparr>impl := InvalidateCache (impl c)\<rparr> else c)
            (put_cell cur ?c2 s) s'"
      "X \<inter> set (cur # visited) = {}"
      by blast
    have c': "cell_at s' cur = Some ?c2"
      using X c by (auto simp: cells_mapped_def cell_at_put_cell_alive)
    have same: "put_cell cur (?c2\<lparr>impl := InvalidateCache (impl ?c2)\<rparr>) s' = s'"
      using c' by (simp add: put_cell_same)
    have ih: "InvalidateCacheDownstream_loop (rev (dependent_cells c) @ st) (cur # visited) s' = Some s'"
      using 2(2) [OF False c run] .
    show ?thesis
      using False c' same ih
      by (subst InvalidateCacheDownstream_loop.simps) simp
  qed
qed

lemma Invalidate_idem:
  "InvalidateCacheDownstream this s = Some s' \<Longrightarrow> InvalidateCacheDownstream this s' = Some s'"
  unfolding InvalidateCacheDownstream_def by (rule Invalidate_loop_idem)

lemma Invalidate_mapped:
  "InvalidateCacheDownstream this s = Some s' \<Longrightarrow>
   \<exists>X. cells_mapped (\<lambda>a c. if a \<in> X then c\<lparr>impl := InvalidateCache (impl c)\<rparr> else c) s s'
      \<and> this \<in> X
      \<and> (\<forall>a \<in> X. \<forall>c. cell_at s a = Some c \<longrightarrow> set (dependent_cells c) \<subseteq> X)"
  unfolding InvalidateCacheDownstream_def
  by (drule Invalidate_loop_mapped) auto

subsection \<open>What an edit leaves alone\<close>


lemma grows_refl: "cell_at s this \<noteq> None \<Longrightarrow> grows env this s s"
  by (auto simp: grows_def)

lemma grows_old:
  "grows env this s s' \<Longrightarrow> cell_at s a = Some c \<Longrightarrow>
   \<exists>c'. cell_at s' a = Some c'
      \<and> (impl c' = impl c \<or> impl c' = InvalidateCache (impl c))
      \<and> (a \<noteq> this \<longrightarrow> source_cells c' = source_cells c)
      \<and> set (dependent_cells c') - {this} = set (dependent_cells c) - {this}"
  unfolding grows_def by blast

lemma grows_new:
  "grows env this s s' \<Longrightarrow> cell_at s a = None \<Longrightarrow> cell_at s' a = Some c' \<Longrightarrow>
   length (heap s) \<le> a \<and> source_cells c' = [] \<and> impl c' = EmptyImpl
   \<and> set (dependent_cells c') \<subseteq> {this}"
  unfolding grows_def by blast

lemma grows_GetCell:
  "grows env this s s' \<Longrightarrow> GetCell env p s' = Inr (Some a) \<Longrightarrow>
   GetCell env p s = Inr (Some a) \<or> (length (heap s) \<le> a \<and> cell_at s' a \<noteq> None)"
  unfolding grows_def by blast

lemma grows_alive: "grows env this s s' \<Longrightarrow> cell_at s a \<noteq> None \<Longrightarrow> cell_at s' a \<noteq> None"
  using grows_old [of env this s s' a] by auto

lemma grows_trans:
  assumes a: "grows env this s s1" and b: "grows env this s1 s2"
  shows "grows env this s s2"
proof -
  have t: "cell_at s this \<noteq> None" using a by (simp add: grows_def)
  have len: "length (heap s) \<le> length (heap s1)" "length (heap s1) \<le> length (heap s2)"
    using a b by (simp_all add: grows_def)
  have x4: "GetCell env p s = Inr (Some x) \<or> (length (heap s) \<le> x \<and> cell_at s2 x \<noteq> None)"
    if "GetCell env p s2 = Inr (Some x)" for p x
  proof -
    from that b have "GetCell env p s1 = Inr (Some x) \<or> (length (heap s1) \<le> x \<and> cell_at s2 x \<noteq> None)"
      using grows_GetCell by blast
    then show ?thesis
    proof
      assume "GetCell env p s1 = Inr (Some x)"
      with a have "GetCell env p s = Inr (Some x) \<or> (length (heap s) \<le> x \<and> cell_at s1 x \<noteq> None)"
        using grows_GetCell by blast
      then show ?thesis using grows_alive [OF b] by blast
    next
      assume "length (heap s1) \<le> x \<and> cell_at s2 x \<noteq> None"
      then show ?thesis using len by simp
    qed
  qed
  have x6: "\<exists>c''. cell_at s2 x = Some c''
             \<and> (impl c'' = impl c \<or> impl c'' = InvalidateCache (impl c))
             \<and> (x \<noteq> this \<longrightarrow> source_cells c'' = source_cells c)
             \<and> set (dependent_cells c'') - {this} = set (dependent_cells c) - {this}"
    if "cell_at s x = Some c" for x c
  proof -
    from grows_old [OF a that] obtain c' where c': "cell_at s1 x = Some c'"
      "impl c' = impl c \<or> impl c' = InvalidateCache (impl c)"
      "x \<noteq> this \<longrightarrow> source_cells c' = source_cells c"
      "set (dependent_cells c') - {this} = set (dependent_cells c) - {this}"
      by blast
    from grows_old [OF b c'(1)] obtain c'' where c'': "cell_at s2 x = Some c''"
      "impl c'' = impl c' \<or> impl c'' = InvalidateCache (impl c')"
      "x \<noteq> this \<longrightarrow> source_cells c'' = source_cells c'"
      "set (dependent_cells c'') - {this} = set (dependent_cells c') - {this}"
      by blast
    from c'(2) c''(2) have "impl c'' = impl c \<or> impl c'' = InvalidateCache (impl c)"
      by auto
    with c'' c'(3,4) show ?thesis by simp
  qed
  have x7: "length (heap s) \<le> x \<and> source_cells c'' = [] \<and> impl c'' = EmptyImpl
            \<and> set (dependent_cells c'') \<subseteq> {this}"
    if "cell_at s x = None" "cell_at s2 x = Some c''" for x c''
  proof (cases "cell_at s1 x")
    case None
    from grows_new [OF b None that(2)] len show ?thesis by simp
  next
    case (Some c')
    from grows_new [OF a that(1) Some] have n: "length (heap s) \<le> x" "source_cells c' = []"
      "impl c' = EmptyImpl" "set (dependent_cells c') \<subseteq> {this}"
      by simp_all
    have ne: "x \<noteq> this" using that(1) t by auto
    from grows_old [OF b Some] that(2) have
      "impl c'' = impl c' \<or> impl c'' = InvalidateCache (impl c')"
      "x \<noteq> this \<longrightarrow> source_cells c'' = source_cells c'"
      "set (dependent_cells c'') - {this} = set (dependent_cells c') - {this}"
      by auto
    with n ne show ?thesis by auto
  qed
  show ?thesis
    unfolding grows_def using t len x4 x6 x7 by (intro conjI allI impI) auto
qed

lemma grows_mapped:
  assumes m: "cells_mapped f s s'" and t: "cell_at s this \<noteq> None"
    and i: "\<And>a c. impl (f a c) = impl c \<or> impl (f a c) = InvalidateCache (impl c)"
    and src: "\<And>a c. a \<noteq> this \<Longrightarrow> source_cells (f a c) = source_cells c"
    and dep: "\<And>a c. set (dependent_cells (f a c)) - {this} = set (dependent_cells c) - {this}"
  shows "grows env this s s'"
proof -
  have at: "cell_at s' a = map_option (f a) (cell_at s a)" for a
    using m by (simp add: cells_mapped_def)
  have len: "length (heap s) \<le> length (heap s')" using m by (simp add: cells_mapped_def)
  have g: "GetCell env p s = Inr (Some a) \<or> (length (heap s) \<le> a \<and> cell_at s' a \<noteq> None)"
    if "GetCell env p s' = Inr (Some a)" for p a
    using that GetCell_cells_mapped [OF m, of env p] by simp
  have k: "\<exists>c'. cell_at s' a = Some c'
             \<and> (impl c' = impl c \<or> impl c' = InvalidateCache (impl c))
             \<and> (a \<noteq> this \<longrightarrow> source_cells c' = source_cells c)
             \<and> set (dependent_cells c') - {this} = set (dependent_cells c) - {this}"
    if "cell_at s a = Some c" for a c
    using that at [of a] i [of a c] src [of a c] dep [of a c] by simp
  have n: "length (heap s) \<le> a \<and> source_cells c' = [] \<and> impl c' = EmptyImpl
           \<and> set (dependent_cells c') \<subseteq> {this}"
    if "cell_at s a = None" "cell_at s' a = Some c'" for a c'
    using that at [of a] by simp
  show ?thesis
    unfolding grows_def using t len g k n by (intro conjI allI impI) auto
qed

lemma grows_GetCell_this:
  assumes "grows env this s s'" "GetCell env p s' = Inr (Some this)"
  shows "GetCell env p s = Inr (Some this)"
proof -
  have "cell_at s this \<noteq> None" using assms(1) by (simp add: grows_def)
  then have "this < length (heap s)" by (auto simp: cell_at_def split: if_splits)
  with grows_GetCell [OF assms] show ?thesis by auto
qed

lemma grows_subscribe:
  assumes "subscribe this src s = Some s'" "src \<noteq> this"
  shows "grows env this s s'"
proof -
  have "cell_at s this \<noteq> None"
    using assms(1) by (auto simp: subscribe_def split: option.splits)
  then show ?thesis
    by (rule grows_mapped [OF subscribe_mapped [OF assms]]) (auto simp: set_insert_def)
qed

lemma grows_Unsubscribe:
  assumes "UnsubscribeFromSources this s = Some s'"
  shows "grows env this s s'"
proof -
  from assms obtain c where c: "cell_at s this = Some c"
    by (auto simp: UnsubscribeFromSources_def split: option.splits)
  then have "cell_at s this \<noteq> None" by simp
  then show ?thesis
    by (rule grows_mapped [OF Unsubscribe_mapped [OF assms c]]) (auto simp: set_erase_def)
qed

lemma grows_Invalidate:
  assumes "InvalidateCacheDownstream this s = Some s'" "cell_at s that \<noteq> None"
  shows "grows env that s s'"
proof -
  from Invalidate_mapped [OF assms(1)] obtain X where
    m: "cells_mapped (\<lambda>a c. if a \<in> X then c\<lparr>impl := InvalidateCache (impl c)\<rparr> else c) s s'"
    by blast
  show ?thesis
    by (rule grows_mapped [OF m assms(2)]) auto
qed

lemma cell_at_beyond [simp]: "cell_at s (length (heap s)) = None"
  by (simp add: cell_at_def)

lemma cell_at_less: "cell_at s a = Some c \<Longrightarrow> a < length (heap s)"
  by (auto simp: cell_at_def split: if_splits)

lemma grows_new_cell:
  assumes "cell_at s this \<noteq> None"
  shows "grows env this s (snd (make_Cell pos (MaybeIncreaseSizeToIncludePosition pos s)))"
proof -
  let ?s' = "snd (make_Cell pos (MaybeIncreaseSizeToIncludePosition pos s))"
  have c: "cell_at ?s' a = (if a = length (heap s) then Some new_Cell else cell_at s a)" for a
    by (simp add: cell_at_make_Cell)
  have g: "GetCell env p s = Inr (Some a) \<or> (length (heap s) \<le> a \<and> cell_at ?s' a \<noteq> None)"
    if "GetCell env p ?s' = Inr (Some a)" for p a
    using that by (auto simp: c GetCell_slot slot_make_Cell split: if_splits)
  have k: "\<exists>c'. cell_at ?s' a = Some c' \<and> (impl c' = impl c0 \<or> impl c' = InvalidateCache (impl c0))
             \<and> (a \<noteq> this \<longrightarrow> source_cells c' = source_cells c0)
             \<and> set (dependent_cells c') - {this} = set (dependent_cells c0) - {this}"
    if "cell_at s a = Some c0" for a c0
    using that cell_at_less [OF that] by (simp add: c)
  have n: "length (heap s) \<le> a \<and> source_cells c' = [] \<and> impl c' = EmptyImpl
           \<and> set (dependent_cells c') \<subseteq> {this}"
    if "cell_at s a = None" "cell_at ?s' a = Some c'" for a c'
    using that by (auto simp: c new_Cell_def split: if_splits)
  show ?thesis
    unfolding grows_def using assms g k n by (intro conjI allI impI) auto
qed

subsection \<open>Subscribing to the new references\<close>


lemma set_set_insert [simp]: "set (set_insert a L) = insert a (set L)"
  by (auto simp: set_insert_def)

lemma subscribed_subscribe:
  assumes J: "subscribed this L s" and sub: "subscribe this a s = Some s2" and ne: "a \<noteq> this"
  shows "subscribed this (set_insert a L) s2"
proof -
  from J obtain c where c: "cell_at s this = Some c" "source_cells c = L"
    and nl: "this \<notin> set L"
    and J2: "\<And>x. x \<in> set L \<Longrightarrow> \<exists>cx xs. cell_at s x = Some cx
            \<and> dependent_cells cx = xs @ [this] \<and> this \<notin> set xs"
    and J3: "\<And>x cx. cell_at s x = Some cx \<Longrightarrow> x \<notin> set L \<Longrightarrow> this \<notin> set (dependent_cells cx)"
    unfolding subscribed_def by blast
  from sub c ne obtain ca where ca: "cell_at s a = Some ca"
    by (auto simp: subscribe_def Let_def cell_at_put_cell_alive split: option.splits)
  note m = subscribe_mapped [OF sub ne]
  have at: "cell_at s2 x = map_option (\<lambda>c. if x = this then c\<lparr>source_cells := set_insert a (source_cells c)\<rparr>
                        else if x = a
                        then c\<lparr>dependent_cells := set_insert this (dependent_cells c)\<rparr>
                        else c) (cell_at s x)" for x
    using m by (simp add: cells_mapped_def)
  have t: "cell_at s2 this = Some (c\<lparr>source_cells := set_insert a L\<rparr>)"
    using at [of this] c by simp
  have a2: "cell_at s2 a = Some (ca\<lparr>dependent_cells := set_insert this (dependent_cells ca)\<rparr>)"
    using at [of a] ca ne by simp
  have da: "\<exists>xs. set_insert this (dependent_cells ca) = xs @ [this] \<and> this \<notin> set xs"
  proof (cases "a \<in> set L")
    case True
    from J2 [OF True] ca show ?thesis by (auto simp: set_insert_def)
  next
    case False
    from J3 [OF ca False] show ?thesis by (auto simp: set_insert_def)
  qed
  have K2: "\<exists>cx xs. cell_at s2 x = Some cx \<and> dependent_cells cx = xs @ [this] \<and> this \<notin> set xs"
    if "x \<in> set (set_insert a L)" for x
  proof (cases "x = a")
    case True
    with a2 da show ?thesis by auto
  next
    case False
    with that have xl: "x \<in> set L" by simp
    then have "x \<noteq> this" using nl by auto
    with J2 [OF xl] False at [of x] show ?thesis by auto
  qed
  have K3: "this \<notin> set (dependent_cells cx)"
    if "cell_at s2 x = Some cx" "x \<notin> set (set_insert a L)" for x cx
  proof -
    from that(2) have xa: "x \<noteq> a" "x \<notin> set L" by auto
    from that(1) at [of x] obtain c0 where c0: "cell_at s x = Some c0"
      "dependent_cells cx = dependent_cells c0"
      using xa(1) by (auto split: if_splits)
    from J3 [OF c0(1) xa(2)] c0(2) show ?thesis by simp
  qed
  show ?thesis
    unfolding subscribed_def using nl ne t K2 K3 by auto
qed

lemma subscribed_new_cell:
  assumes J: "subscribed this L s"
  shows "subscribed this L (snd (make_Cell pos (MaybeIncreaseSizeToIncludePosition pos s)))"
proof -
  let ?s' = "snd (make_Cell pos (MaybeIncreaseSizeToIncludePosition pos s))"
  have c: "cell_at ?s' a = (if a = length (heap s) then Some new_Cell else cell_at s a)" for a
    by (simp add: cell_at_make_Cell)
  have old: "cell_at ?s' a = Some c0" if "cell_at s a = Some c0" for a c0
    using that cell_at_less [OF that] by (simp add: c)
  from J obtain c0 where c0: "cell_at s this = Some c0" "source_cells c0 = L"
    and nl: "this \<notin> set L"
    and J2: "\<And>x. x \<in> set L \<Longrightarrow> \<exists>cx xs. cell_at s x = Some cx
            \<and> dependent_cells cx = xs @ [this] \<and> this \<notin> set xs"
    and J3: "\<And>x cx. cell_at s x = Some cx \<Longrightarrow> x \<notin> set L \<Longrightarrow> this \<notin> set (dependent_cells cx)"
    unfolding subscribed_def by blast
  have K2: "\<exists>cx xs. cell_at ?s' x = Some cx \<and> dependent_cells cx = xs @ [this] \<and> this \<notin> set xs"
    if "x \<in> set L" for x
    using J2 [OF that] old by blast
  have K3: "this \<notin> set (dependent_cells cx)" if "cell_at ?s' x = Some cx" "x \<notin> set L" for x cx
    using that J3 [of x cx] by (auto simp: c new_Cell_def split: if_splits)
  show ?thesis
    unfolding subscribed_def using nl old [OF c0(1)] c0(2) K2 K3 by auto
qed

lemma subscribed_alive: "subscribed this L s \<Longrightarrow> cell_at s this \<noteq> None"
  by (auto simp: subscribed_def)

lemma UpdateDependencies_loop_effect:
  assumes run: "UpdateDependencies_loop env this refs s = Returned () s'"
    and v: "\<forall>p \<in> set refs. IsValid (MAX_ROWS env) (MAX_COLS env) p"
    and J: "subscribed this L s"
    and noself: "\<forall>p \<in> set refs. GetCell env p s \<noteq> Inr (Some this)"
  shows "\<exists>R. map (\<lambda>p. GetCell env p s') refs = map (\<lambda>a. Inr (Some a)) R
          \<and> this \<notin> set R
          \<and> subscribed this (fold set_insert R L) s'
          \<and> grows env this s s'"
  using assms
proof (induction refs arbitrary: s L)
  case Nil
  then have "s' = s" by simp
  with Nil show ?case
    by (intro exI [of _ "[]"]) (simp add: grows_refl subscribed_alive)
next
  case (Cons pos rest)
  have vp: "IsValid (MAX_ROWS env) (MAX_COLS env) pos" using Cons.prems(2) by simp
  have vr: "\<forall>p \<in> set rest. IsValid (MAX_ROWS env) (MAX_COLS env) p" using Cons.prems(2) by simp
  have alive: "cell_at s this \<noteq> None" using Cons.prems(3) by (rule subscribed_alive)
  obtain f where g: "GetCell env pos s = Inr f" using vp by (auto simp: GetCell_slot)
  have step: "\<exists>a s1 s2. a \<noteq> this \<and> GetCell env pos s1 = Inr (Some a)
        \<and> subscribed this L s1 \<and> grows env this s s1 \<and> keeps_cells env s s1
        \<and> subscribe this a s1 = Some s2
        \<and> UpdateDependencies_loop env this rest s2 = Returned () s'"
  proof (cases f)
    case (Some a)
    with g Cons.prems(4) have ne: "a \<noteq> this" by auto
    with Cons.prems(1) g Some obtain s2 where "subscribe this a s = Some s2"
      "UpdateDependencies_loop env this rest s2 = Returned () s'"
      by (auto split: option.splits)
    with ne g Some Cons.prems(3) alive show ?thesis
      by (intro exI [of _ a] exI [of _ s] exI [of _ s2]) (simp add: grows_refl)
  next
    case None
    let ?s1 = "snd (make_Cell pos (MaybeIncreaseSizeToIncludePosition pos s))"
    note sc = SetCell_absent [OF vp g [unfolded None]]
    note g1 = GetCell_make_Cell_pos [OF vp, of s]
    have ne: "length (heap s) \<noteq> this" using alive by (auto simp: cell_at_def split: if_splits)
    from Cons.prems(1) g None sc g1 ne obtain s2 where
      "subscribe this (length (heap s)) ?s1 = Some s2"
      "UpdateDependencies_loop env this rest s2 = Returned () s'"
      by (auto split: option.splits)
    with ne g1 subscribed_new_cell [OF Cons.prems(3), of pos] grows_new_cell [OF alive, of env pos]
      keeps_cells_SetCell_absent [OF vp g [unfolded None]]
    show ?thesis
      by (intro exI [of _ "length (heap s)"] exI [of _ ?s1] exI [of _ s2]) simp
  qed
  then obtain a s1 s2 where ne: "a \<noteq> this" and ga: "GetCell env pos s1 = Inr (Some a)"
    and J1: "subscribed this L s1" and gr1: "grows env this s s1" and k1: "keeps_cells env s s1"
    and sub: "subscribe this a s1 = Some s2"
    and run2: "UpdateDependencies_loop env this rest s2 = Returned () s'"
    by blast
  have J2: "subscribed this (set_insert a L) s2" using J1 sub ne by (rule subscribed_subscribe)
  have gr2: "grows env this s s2" using gr1 grows_subscribe [OF sub ne] by (rule grows_trans)
  have ns2: "\<forall>p \<in> set rest. GetCell env p s2 \<noteq> Inr (Some this)"
    using Cons.prems(4) grows_GetCell_this [OF gr2] by auto
  from Cons.IH [OF run2 vr J2 ns2] obtain R where
    R: "map (\<lambda>p. GetCell env p s') rest = map (\<lambda>a. Inr (Some a)) R" "this \<notin> set R"
       "subscribed this (fold set_insert R (set_insert a L)) s'" "grows env this s2 s'"
    by blast
  have "keeps_cells env s1 s'"
    using keeps_cells_subscribe [OF sub] keeps_cells_UpdateDependencies_loop [of env this rest s2 s'] run2
    by (auto intro: keeps_cells_trans)
  with ga have ga': "GetCell env pos s' = Inr (Some a)" by (simp add: keeps_cells_def)
  show ?case
    using R ga' ne grows_trans [OF gr2 R(4)]
    by (intro exI [of _ "a # R"]) simp
qed

subsection \<open>The cycle check after the edit\<close>


lemma bfs_false_closed:
  assumes "CheckCircularDependency_bfs s this queue visited = Some False"
    and "this \<notin> set visited"
    and "\<forall>v \<in> set visited. \<exists>c. cell_at s v = Some c
           \<and> set (source_cells c) \<subseteq> set visited \<union> set queue"
  shows "\<exists>V. set visited \<union> set queue \<subseteq> V \<and> this \<notin> V
           \<and> (\<forall>a \<in> V. \<exists>c. cell_at s a = Some c \<and> set (source_cells c) \<subseteq> V)"
  using assms
proof (induction s this queue visited rule: CheckCircularDependency_bfs.induct)
  case (1 s this visited)
  then show ?case by (intro exI [of _ "set visited"]) simp
next
  case (2 s this cur queue visited)
  show ?case
  proof (cases "cur \<in> set visited")
    case True
    with 2(3) have run: "CheckCircularDependency_bfs s this queue visited = Some False"
      by (simp add: CheckCircularDependency_bfs.simps)
    have closed: "\<forall>v \<in> set visited. \<exists>c. cell_at s v = Some c
           \<and> set (source_cells c) \<subseteq> set visited \<union> set queue"
      using 2(5) True by (simp add: insert_absorb)
    from 2(1) [OF True run 2(4) closed] obtain V where
      "set visited \<union> set queue \<subseteq> V" "this \<notin> V"
      "\<forall>a \<in> V. \<exists>c. cell_at s a = Some c \<and> set (source_cells c) \<subseteq> V"
      by blast
    with True show ?thesis by (intro exI [of _ V]) auto
  next
    case False
    show ?thesis
    proof (cases "cur = this")
      case True
      with False 2(3) show ?thesis by (simp add: CheckCircularDependency_bfs.simps)
    next
      case ne: False
      with False 2(3) obtain c where c: "cell_at s cur = Some c"
        and run: "CheckCircularDependency_bfs s this (queue @ source_cells c) (cur # visited) = Some False"
        by (auto simp: CheckCircularDependency_bfs.simps split: option.splits)
      have nv: "this \<notin> set (cur # visited)" using ne 2(4) by auto
      have closed: "\<forall>v \<in> set (cur # visited). \<exists>c'. cell_at s v = Some c'
           \<and> set (source_cells c') \<subseteq> set (cur # visited) \<union> set (queue @ source_cells c)"
        using 2(5) c by fastforce
      from 2(2) [OF False ne c run nv closed] obtain V where
        "set (cur # visited) \<union> set (queue @ source_cells c) \<subseteq> V" "this \<notin> V"
        "\<forall>a \<in> V. \<exists>c. cell_at s a = Some c \<and> set (source_cells c) \<subseteq> V"
        by blast
      then show ?thesis by (intro exI [of _ V]) auto
    qed
  qed
qed

lemma bfs_closed_false:
  assumes "set queue \<subseteq> V" "this \<notin> V"
    and "\<forall>a \<in> V. \<exists>c. cell_at s a = Some c \<and> set (source_cells c) \<subseteq> V"
  shows "CheckCircularDependency_bfs s this queue visited = Some False"
  using assms
proof (induction s this queue visited rule: CheckCircularDependency_bfs.induct)
  case (1 s this visited)
  then show ?case by (simp add: CheckCircularDependency_bfs.simps)
next
  case (2 s this cur queue visited)
  have cv: "cur \<in> V" using 2(3) by simp
  then have ne: "cur \<noteq> this" using 2(4) by auto
  show ?case
  proof (cases "cur \<in> set visited")
    case True
    have "set queue \<subseteq> V" using 2(3) by simp
    from 2(1) [OF True this 2(4) 2(5)] True show ?thesis
      by (simp add: CheckCircularDependency_bfs.simps)
  next
    case False
    from cv 2(5) obtain c where c: "cell_at s cur = Some c" "set (source_cells c) \<subseteq> V"
      by blast
    have "set (queue @ source_cells c) \<subseteq> V" using 2(3) c(2) by simp
    from 2(2) [OF False ne c(1) this 2(4) 2(5)] False ne c(1) show ?thesis
      by (simp add: CheckCircularDependency_bfs.simps)
  qed
qed

lemma bfs_cong:
  assumes "\<forall>a. map_option source_cells (cell_at s' a) = map_option source_cells (cell_at s a)"
  shows "CheckCircularDependency_bfs s' this queue visited
         = CheckCircularDependency_bfs s this queue visited"
  using assms
proof (induction s this queue visited rule: CheckCircularDependency_bfs.induct)
  case (1 s this visited)
  show ?case by (simp add: CheckCircularDependency_bfs.simps)
next
  case (2 s this cur queue visited)
  show ?case
  proof (cases "cur \<in> set visited \<or> cur = this")
    case True
    with 2(1) 2(3) show ?thesis by (auto simp: CheckCircularDependency_bfs.simps)
  next
    case False
    show ?thesis
    proof (cases "cell_at s cur")
      case None
      with 2(3) [rule_format, of cur] have "cell_at s' cur = None" by simp
      with None False show ?thesis
        by (simp add: CheckCircularDependency_bfs.simps)
    next
      case (Some c)
      with 2(3) [rule_format, of cur] obtain c' where
        "cell_at s' cur = Some c'" "source_cells c' = source_cells c"
        by (cases "cell_at s' cur") auto
      with False Some 2(2) [of c] 2(3) show ?thesis
        by (simp add: CheckCircularDependency_bfs.simps)
    qed
  qed
qed

lemma CheckCircularDependency_False:
  assumes "CheckCircularDependency env this refs s = Returned False u"
  shows "\<exists>q. CheckCircularDependency_seed env s this refs [] = Inr (False, q)
           \<and> CheckCircularDependency_bfs s this q [] = Some False"
  using assms
  by (auto simp: CheckCircularDependency_def split: sum.splits prod.splits bool.splits option.splits)

lemma CheckCircularDependency_no_self:
  assumes "CheckCircularDependency env this refs s = Returned False u"
  shows "this \<notin> proposed_sources env s refs"
proof -
  from CheckCircularDependency_False [OF assms] obtain q where
    sd: "CheckCircularDependency_seed env s this refs [] = Inr (False, q)" by blast
  from seed_result [OF seed_valid [OF sd], of s this "[]"] sd show ?thesis by auto
qed

lemma CheckCircularDependency_grows:
  assumes first: "CheckCircularDependency env this refs s = Returned False ()"
    and gr: "grows env this s s1"
  shows "CheckCircularDependency env this refs s1 = Returned False ()"
proof -
  from CheckCircularDependency_False [OF first] obtain q where
    sd: "CheckCircularDependency_seed env s this refs [] = Inr (False, q)"
    and bfs: "CheckCircularDependency_bfs s this q [] = Some False" by blast
  note v = seed_valid [OF sd]
  from seed_result [OF v, of s this "[]"] sd have
    ns: "this \<notin> proposed_sources env s refs" and q: "set q = proposed_sources env s refs"
    by auto
  from bfs_false_closed [OF bfs] obtain V where
    V: "set q \<subseteq> V" "this \<notin> V"
    and closed: "\<And>a. a \<in> V \<Longrightarrow> \<exists>c. cell_at s a = Some c \<and> set (source_cells c) \<subseteq> V"
    by auto
  define V1 where "V1 = V \<union> {a. length (heap s) \<le> a \<and> cell_at s1 a \<noteq> None}"
  have alive: "cell_at s this \<noteq> None" using gr by (simp add: grows_def)
  then have lt: "this < length (heap s)" by (auto simp: cell_at_def split: if_splits)
  have t1: "this \<notin> V1" using V(2) lt by (simp add: V1_def)
  have closed1: "\<exists>c. cell_at s1 a = Some c \<and> set (source_cells c) \<subseteq> V1" if "a \<in> V1" for a
  proof (cases "a \<in> V")
    case True
    from closed [OF True] obtain c where c: "cell_at s a = Some c" "set (source_cells c) \<subseteq> V"
      by blast
    have "a \<noteq> this" using True V(2) by auto
    with grows_old [OF gr c(1)] obtain c' where
      "cell_at s1 a = Some c'" "source_cells c' = source_cells c"
      by auto
    with c(2) show ?thesis by (auto simp: V1_def)
  next
    case False
    with that have n: "length (heap s) \<le> a" "cell_at s1 a \<noteq> None" by (auto simp: V1_def)
    then obtain c' where c': "cell_at s1 a = Some c'" by auto
    have "cell_at s a = None" using n(1) by (simp add: cell_at_def)
    from grows_new [OF gr this c'] have "source_cells c' = []" by simp
    with c' show ?thesis by simp
  qed
  from seed_result [OF v, of s1 this "[]"] obtain found q1 where
    sd1: "CheckCircularDependency_seed env s1 this refs [] = Inr (found, q1)"
    and f1: "found \<longrightarrow> this \<in> proposed_sources env s1 refs"
    and q1: "\<not> found \<longrightarrow> set q1 = proposed_sources env s1 refs"
    by auto
  have ns1: "this \<notin> proposed_sources env s1 refs"
    using ns grows_GetCell_this [OF gr] by (auto simp: proposed_sources_def)
  with f1 have nf: "\<not> found" by auto
  have "proposed_sources env s1 refs \<subseteq> V1"
  proof
    fix a assume "a \<in> proposed_sources env s1 refs"
    then obtain p where p: "p \<in> set refs" "GetCell env p s1 = Inr (Some a)"
      by (auto simp: proposed_sources_def)
    with gr have "GetCell env p s = Inr (Some a) \<or> (length (heap s) \<le> a \<and> cell_at s1 a \<noteq> None)"
      using grows_GetCell by blast
    then show "a \<in> V1"
    proof
      assume "GetCell env p s = Inr (Some a)"
      with p(1) have "a \<in> proposed_sources env s refs" by (auto simp: proposed_sources_def)
      with q V(1) show ?thesis by (auto simp: V1_def)
    next
      assume "length (heap s) \<le> a \<and> cell_at s1 a \<noteq> None"
      then show ?thesis by (simp add: V1_def)
    qed
  qed
  with q1 nf have "set q1 \<subseteq> V1" by simp
  then have "CheckCircularDependency_bfs s1 this q1 [] = Some False"
    using t1 closed1 by (intro bfs_closed_false [of q1 V1]) auto
  with sd1 nf show ?thesis by (simp add: CheckCircularDependency_def)
qed

lemma seed_cells:
  "cells s' = cells s \<Longrightarrow>
   CheckCircularDependency_seed env s' this refs queue
   = CheckCircularDependency_seed env s this refs queue"
  by (induction refs arbitrary: queue)
     (auto simp: GetConcreteCell_def GetCell_cells [of s' s] split: sum.splits option.splits)

lemma CheckCircularDependency_put_impl:
  "CheckCircularDependency env this refs (put_impl a i s) = CheckCircularDependency env this refs s"
proof -
  have "map_option source_cells (cell_at (put_impl a i s) x) = map_option source_cells (cell_at s x)"
    for x
    by (auto simp: put_impl_def cell_at_put_cell_alive split: option.splits)
  then have "CheckCircularDependency_bfs (put_impl a i s) this q []
             = CheckCircularDependency_bfs s this q []" for q
    by (intro bfs_cong) simp
  then show ?thesis
    by (simp add: CheckCircularDependency_def seed_cells [of "put_impl a i s" s]
             split: sum.splits prod.splits bool.splits)
qed

subsection \<open>The same edit again\<close>


lemma set_fold_set_insert [simp]: "set (fold set_insert R L) = set R \<union> set L"
  by (induction R arbitrary: L) auto

lemma set_insert_idem [simp]: "set_insert a (set_insert a L) = set_insert a L"
  by (simp add: set_insert_def)

lemma UpdateDependencies_loop_existing:
  assumes "map (\<lambda>p. GetCell env p s) refs = map (\<lambda>a. Inr (Some a)) R"
    and "this \<notin> set R" "\<forall>a \<in> set R. cell_at s a \<noteq> None" "cell_at s this \<noteq> None"
  shows "\<exists>s'. UpdateDependencies_loop env this refs s = Returned () s'
     \<and> cells_mapped (\<lambda>a c. if a = this then c\<lparr>source_cells := fold set_insert R (source_cells c)\<rparr>
                        else if a \<in> set R
                        then c\<lparr>dependent_cells := set_insert this (dependent_cells c)\<rparr>
                        else c) s s'"
  using assms
proof (induction refs arbitrary: s R)
  case Nil
  then show ?case by (auto intro: cells_mapped_cong [OF cells_mapped_refl])
next
  case (Cons pos rest)
  from Cons.prems(1) obtain a R' where R: "R = a # R'" and g: "GetCell env pos s = Inr (Some a)"
    and rest: "map (\<lambda>p. GetCell env p s) rest = map (\<lambda>a. Inr (Some a)) R'"
    by (cases R) auto
  have ne: "a \<noteq> this" using Cons.prems(2) R by auto
  have "cell_at s a \<noteq> None" using Cons.prems(3) R by auto
  from subscribe_total [OF Cons.prems(4) this] obtain s2 where
    sub: "subscribe this a s = Some s2" by blast
  note m1 = subscribe_mapped [OF sub ne]
  have g2: "GetCell env p s2 = GetCell env p s" for p
    using m1 by (rule GetCell_cells_mapped)
  have al: "cell_at s2 x \<noteq> None" if "cell_at s x \<noteq> None" for x
    using m1 that by (auto simp: cells_mapped_def)
  have "\<exists>s'. UpdateDependencies_loop env this rest s2 = Returned () s'
     \<and> cells_mapped (\<lambda>a c. if a = this then c\<lparr>source_cells := fold set_insert R' (source_cells c)\<rparr>
                        else if a \<in> set R'
                        then c\<lparr>dependent_cells := set_insert this (dependent_cells c)\<rparr>
                        else c) s2 s'"
    using rest Cons.prems(2,3,4) R al by (intro Cons.IH) (auto simp: g2)
  then obtain s' where run: "UpdateDependencies_loop env this rest s2 = Returned () s'"
    and m2: "cells_mapped (\<lambda>a c. if a = this then c\<lparr>source_cells := fold set_insert R' (source_cells c)\<rparr>
                        else if a \<in> set R'
                        then c\<lparr>dependent_cells := set_insert this (dependent_cells c)\<rparr>
                        else c) s2 s'"
    by blast
  have "UpdateDependencies_loop env this (pos # rest) s = Returned () s'"
    using g ne sub run by simp
  moreover have "cells_mapped (\<lambda>a c. if a = this then c\<lparr>source_cells := fold set_insert R (source_cells c)\<rparr>
                        else if a \<in> set R
                        then c\<lparr>dependent_cells := set_insert this (dependent_cells c)\<rparr>
                        else c) s s'"
    by (rule cells_mapped_cong [OF cells_mapped_trans [OF m1 m2]]) (auto simp: R ne)
  ultimately show ?case by blast
qed

lemma dependent_only_of_sourcesD:
  assumes "dependent_only_of_sources this s" "cell_at s this = Some c" "cell_at s x = Some cx"
    "this \<in> set (dependent_cells cx)"
  shows "x \<in> set (source_cells c)"
proof -
  have "x < length (heap s)" using assms(3) by (rule cell_at_less)
  with assms(1,2) have "case cell_at s x of None \<Rightarrow> True
      | Some cx \<Rightarrow> this \<in> set (dependent_cells cx) \<longrightarrow> x \<in> set (source_cells c)"
    by (simp add: dependent_only_of_sources_def list_all_iff)
  with assms(3,4) show ?thesis by simp
qed

lemma subscribed_mapped:
  assumes m: "cells_mapped f s s'" and J: "subscribed this L s"
    and k: "\<And>a c. source_cells (f a c) = source_cells c
                 \<and> dependent_cells (f a c) = dependent_cells c"
  shows "subscribed this L s'"
proof -
  have at: "cell_at s' a = map_option (f a) (cell_at s a)" for a
    using m by (simp add: cells_mapped_def)
  from J obtain c where c: "cell_at s this = Some c" "source_cells c = L"
    and nl: "this \<notin> set L"
    and J2: "\<And>x. x \<in> set L \<Longrightarrow> \<exists>cx xs. cell_at s x = Some cx
            \<and> dependent_cells cx = xs @ [this] \<and> this \<notin> set xs"
    and J3: "\<And>x cx. cell_at s x = Some cx \<Longrightarrow> x \<notin> set L \<Longrightarrow> this \<notin> set (dependent_cells cx)"
    unfolding subscribed_def by blast
  have K1: "\<exists>c'. cell_at s' this = Some c' \<and> source_cells c' = L"
    using at [of this] c k by simp
  have K2: "\<exists>cx xs. cell_at s' x = Some cx \<and> dependent_cells cx = xs @ [this] \<and> this \<notin> set xs"
    if "x \<in> set L" for x
    using J2 [OF that] at [of x] k by auto
  have K3: "this \<notin> set (dependent_cells cx)" if "cell_at s' x = Some cx" "x \<notin> set L" for x cx
  proof -
    from that(1) at [of x] obtain c0 where "cell_at s x = Some c0" "cx = f x c0" by auto
    with J3 [OF this(1) that(2)] k show ?thesis by simp
  qed
  show ?thesis
    unfolding subscribed_def using nl K1 K2 K3 by auto
qed

lemma subscribed_Unsubscribe:
  assumes c: "cell_at s this = Some c"
    and h: "\<And>x cx. cell_at s x = Some cx \<Longrightarrow> this \<in> set (dependent_cells cx)
              \<Longrightarrow> x \<in> set (source_cells c)"
    and unsub: "UnsubscribeFromSources this s = Some s'"
  shows "subscribed this [] s'"
proof -
  note m = Unsubscribe_mapped [OF unsub c]
  have at: "cell_at s' a = map_option (\<lambda>c'. (if a \<in> set (source_cells c)
                        then c'\<lparr>dependent_cells := set_erase this (dependent_cells c')\<rparr> else c')
                       \<lparr>source_cells := (if a = this then [] else source_cells c')\<rparr>) (cell_at s a)"
    for a
    using m by (simp add: cells_mapped_def)
  have K1: "\<exists>c'. cell_at s' this = Some c' \<and> source_cells c' = []"
    using at [of this] c by simp
  have K3: "this \<notin> set (dependent_cells cx)" if "cell_at s' x = Some cx" for x cx
  proof -
    from that at [of x] obtain c0 where c0: "cell_at s x = Some c0"
      and d: "dependent_cells cx = (if x \<in> set (source_cells c)
                then set_erase this (dependent_cells c0) else dependent_cells c0)"
      by auto
    show ?thesis
    proof (cases "x \<in> set (source_cells c)")
      case True
      with d show ?thesis by (simp add: set_erase_def)
    next
      case False
      with h [OF c0] d show ?thesis by auto
    qed
  qed
  show ?thesis
    unfolding subscribed_def using K1 K3 by auto
qed

lemma UpdateDependencies_again:
  assumes J: "subscribed this (fold set_insert R []) s"
    and g: "map (\<lambda>p. GetCell env p s) refs = map (\<lambda>a. Inr (Some a)) R"
    and nR: "this \<notin> set R"
  shows "UpdateDependencies env this refs s = Returned () s"
proof -
  from J obtain c where c: "cell_at s this = Some c" "source_cells c = fold set_insert R []"
    and J2: "\<And>x. x \<in> set R \<Longrightarrow> \<exists>cx xs. cell_at s x = Some cx
            \<and> dependent_cells cx = xs @ [this] \<and> this \<notin> set xs"
    unfolding subscribed_def by auto
  have sc: "set (source_cells c) = set R" using c(2) by simp
  have alive: "\<forall>x \<in> set (source_cells c). cell_at s x \<noteq> None"
    using J2 sc by fastforce
  from Unsubscribe_total [OF c(1) alive] obtain sB where
    unsub: "UnsubscribeFromSources this s = Some sB" by blast
  note mU = Unsubscribe_mapped [OF unsub c(1)]
  have gB: "map (\<lambda>p. GetCell env p sB) refs = map (\<lambda>a. Inr (Some a)) R"
    using g by (simp add: GetCell_cells_mapped [OF mU])
  have al: "cell_at sB x \<noteq> None" if "cell_at s x \<noteq> None" for x
    using mU that by (auto simp: cells_mapped_def)
  have aR: "\<forall>a \<in> set R. cell_at sB a \<noteq> None"
    using alive sc al by auto
  have at: "cell_at sB this \<noteq> None" using al c(1) by auto
  from UpdateDependencies_loop_existing [OF gB nR aR at] obtain s' where
    run: "UpdateDependencies_loop env this refs sB = Returned () s'"
    and m2: "cells_mapped (\<lambda>a c. if a = this then c\<lparr>source_cells := fold set_insert R (source_cells c)\<rparr>
                        else if a \<in> set R
                        then c\<lparr>dependent_cells := set_insert this (dependent_cells c)\<rparr>
                        else c) sB s'"
    by blast
  have "s' = s"
  proof (rule cells_mapped_id [OF cells_mapped_trans [OF mU m2]])
    fix a ca assume ca: "cell_at s a = Some ca"
    show "(if a = this
           then ((if a \<in> set (source_cells c)
                  then ca\<lparr>dependent_cells := set_erase this (dependent_cells ca)\<rparr> else ca)
                 \<lparr>source_cells := if a = this then [] else source_cells ca\<rparr>)
                \<lparr>source_cells := fold set_insert R
                   (source_cells ((if a \<in> set (source_cells c)
                  then ca\<lparr>dependent_cells := set_erase this (dependent_cells ca)\<rparr> else ca)
                 \<lparr>source_cells := if a = this then [] else source_cells ca\<rparr>))\<rparr>
           else if a \<in> set R
           then ((if a \<in> set (source_cells c)
                  then ca\<lparr>dependent_cells := set_erase this (dependent_cells ca)\<rparr> else ca)
                 \<lparr>source_cells := if a = this then [] else source_cells ca\<rparr>)
                \<lparr>dependent_cells := set_insert this
                   (dependent_cells ((if a \<in> set (source_cells c)
                  then ca\<lparr>dependent_cells := set_erase this (dependent_cells ca)\<rparr> else ca)
                 \<lparr>source_cells := if a = this then [] else source_cells ca\<rparr>))\<rparr>
           else (if a \<in> set (source_cells c)
                  then ca\<lparr>dependent_cells := set_erase this (dependent_cells ca)\<rparr> else ca)
                 \<lparr>source_cells := if a = this then [] else source_cells ca\<rparr>) = ca"
    proof (cases "a = this")
      case True
      with ca c(1) have "ca = c" by simp
      with True nR sc c(2) show ?thesis by simp
    next
      case False
      show ?thesis
      proof (cases "a \<in> set R")
        case True
        from J2 [OF True] ca obtain xs where "dependent_cells ca = xs @ [this]" "this \<notin> set xs"
          by auto
        with True False sc show ?thesis by (simp add: set_erase_def set_insert_def)
      next
        case nr: False
        with False sc show ?thesis by simp
      qed
    qed
  qed
  with unsub run show ?thesis by (subst UpdateDependencies.simps) simp
qed

lemma Set_new_impl_cases:
  assumes "Set_new_impl env this txt s = Returned new u"
  shows "InvalidateCache (fst new) = fst new
     \<and> ((snd new = [] \<and> Impl_GetText env (fst new) = txt)
        \<or> (\<exists>ast. txt \<noteq> [] \<and> hd txt = FORMULA_SIGN \<and> length txt > 1
              \<and> ParseFormula env (tl txt) = Inr ast
              \<and> new = (FormulaImpl ast None, Formula_GetReferencedCells env ast)
              \<and> CheckCircularDependency env this (Formula_GetReferencedCells env ast) s
                  = Returned False ()))"
  using assms
  by (auto simp: Set_new_impl_def split: if_splits sum.splits result.splits)

lemma Cell_Set_twice:
  assumes H: "dependent_only_of_sources this s"
    and first: "Cell_Set env this txt s = Returned () s1"
  shows "Cell_Set env this txt s1 = Returned () s1"
proof -
  from first obtain c where c: "cell_at s this = Some c"
    by (subst (asm) Cell_Set.simps) (auto split: option.splits)
  show ?thesis
  proof (cases "txt = Cell_GetText env c")
    case True
    with first c have "s1 = s" by (subst (asm) Cell_Set.simps) simp
    with first show ?thesis by simp
  next
    case False
    with first c obtain new sC where
      n: "Set_new_impl env this txt s = Returned new ()"
      and ud: "UpdateDependencies env this (snd new) (put_impl this (fst new) s) = Returned () sC"
      and inv: "InvalidateCacheDownstream this sC = Some s1"
      by (subst (asm) Cell_Set.simps) (auto split: result.splits option.splits)
    let ?sA = "put_impl this (fst new) s"
    let ?cA = "c\<lparr>impl := fst new\<rparr>"
    let ?refs = "snd new"
    from ud obtain sB where unsub: "UnsubscribeFromSources this ?sA = Some sB"
      and loop: "UpdateDependencies_loop env this ?refs sB = Returned () sC"
      by (subst (asm) UpdateDependencies.simps) (auto split: option.splits)
    note cases = Set_new_impl_cases [OF n]
    note v = Set_new_impl_valid [OF n]
    have atA: "cell_at ?sA x = (if x = this then Some ?cA else cell_at s x)" for x
      using c by (simp add: put_impl_def cell_at_put_cell_alive)
    have cA: "cell_at ?sA this = Some ?cA" by (simp add: atA)
    have hA: "x \<in> set (source_cells ?cA)"
      if "cell_at ?sA x = Some cx" "this \<in> set (dependent_cells cx)" for x cx
    proof (cases "x = this")
      case True
      with that atA [of x] have "this \<in> set (dependent_cells c)" by auto
      from dependent_only_of_sourcesD [OF H c c this] True show ?thesis by simp
    next
      case False
      with that atA [of x] have "cell_at s x = Some cx" by simp
      from dependent_only_of_sourcesD [OF H c this that(2)] show ?thesis by simp
    qed
    have JB: "subscribed this [] sB"
      using cA hA unsub by (rule subscribed_Unsubscribe)
    have noself: "\<forall>p \<in> set ?refs. GetCell env p sB \<noteq> Inr (Some this)"
    proof
      fix p assume p: "p \<in> set ?refs"
      have "GetCell env p sB = GetCell env p s"
        using GetCell_cells_mapped [OF Unsubscribe_mapped [OF unsub cA], of env p] by simp
      moreover have "GetCell env p s \<noteq> Inr (Some this)"
      proof
        assume g: "GetCell env p s = Inr (Some this)"
        from cases p obtain ast where
          "CheckCircularDependency env this ?refs s = Returned False ()"
          by auto
        from CheckCircularDependency_no_self [OF this] p g show False
          by (auto simp: proposed_sources_def)
      qed
      ultimately show "GetCell env p sB \<noteq> Inr (Some this)" by simp
    qed
    from UpdateDependencies_loop_effect [OF loop v JB noself] obtain R where
      gC: "map (\<lambda>p. GetCell env p sC) ?refs = map (\<lambda>a. Inr (Some a)) R"
      and nR: "this \<notin> set R"
      and JC: "subscribed this (fold set_insert R []) sC"
      and grBC: "grows env this sB sC"
      by blast
    from Invalidate_mapped [OF inv] obtain X where
      mI: "cells_mapped (\<lambda>a c. if a \<in> X then c\<lparr>impl := InvalidateCache (impl c)\<rparr> else c) sC s1"
      by blast
    have J1: "subscribed this (fold set_insert R []) s1"
      by (rule subscribed_mapped [OF mI JC]) simp
    have g1: "map (\<lambda>p. GetCell env p s1) ?refs = map (\<lambda>a. Inr (Some a)) R"
      using gC by (simp add: GetCell_cells_mapped [OF mI])
    have grA1: "grows env this ?sA s1"
      using grows_Unsubscribe [OF unsub] grBC
        grows_Invalidate [OF inv subscribed_alive [OF JC]]
      by (blast intro: grows_trans)
    from grows_old [OF grA1 cA] obtain c1 where c1: "cell_at s1 this = Some c1"
      and i1: "impl c1 = fst new \<or> impl c1 = InvalidateCache (fst new)"
      by auto
    from i1 cases have i1': "impl c1 = fst new" by auto
    show ?thesis
    proof (cases "txt = Cell_GetText env c1")
      case True
      with c1 show ?thesis by (simp add: Cell_Set_same_text)
    next
      case ne1: False
      with i1' cases obtain ast where f: "txt \<noteq> []" "hd txt = FORMULA_SIGN" "length txt > 1"
        "ParseFormula env (tl txt) = Inr ast"
        "new = (FormulaImpl ast None, Formula_GetReferencedCells env ast)"
        and ck: "CheckCircularDependency env this (Formula_GetReferencedCells env ast) s
                  = Returned False ()"
        by (auto simp: Cell_GetText_def)
      from ck have "CheckCircularDependency env this (Formula_GetReferencedCells env ast) ?sA
                  = Returned False ()"
        by (simp add: CheckCircularDependency_put_impl)
      then have "CheckCircularDependency env this (Formula_GetReferencedCells env ast) s1
                  = Returned False ()"
        using grA1 by (rule CheckCircularDependency_grows)
      with f have n1: "Set_new_impl env this txt s1 = Returned new ()"
        by (simp add: Set_new_impl_def)
      have p1: "put_impl this (fst new) s1 = s1"
        using put_impl_same [OF c1] i1' by simp
      have u1: "UpdateDependencies env this (snd new) s1 = Returned () s1"
        using J1 g1 nR by (rule UpdateDependencies_again)
      have iv1: "InvalidateCacheDownstream this s1 = Some s1"
        using inv by (rule Invalidate_idem)
      show ?thesis
        using c1 ne1 n1 p1 u1 iv1 by (subst Cell_Set.simps) simp
    qed
  qed
qed

text \<open>
  Claim C5 (idempotence of \<^verbatim>\<open>Cell::Set\<close>).  When \<^verbatim>\<open>Set(t)\<close> returns, a second \<^verbatim>\<open>Set(t)\<close>
  on the state it left returns and leaves that very state: the implementation and the memo
  of the cell, its sources and dependents, and every other cell with its memo and its edges
  are the same.  This holds also when the text of the cell differs from \<open>t\<close> after the first
  call (a formula is printed back in canonical form), where the second call unsubscribes,
  subscribes and invalidates again.  The sets of cells are lists here, so the cell is
  assumed to be a dependent only of its sources, which keeps the order of the dependents.
  When the first call throws, it has changed nothing, and the second call throws the same.
\<close>

theorem Set_idempotent:
  "(dependent_only_of_sources this s \<and> Cell_Set env this txt s = Returned () s1
      \<longrightarrow> Cell_Set env this txt s1 = Returned () s1)
   \<and> (Cell_Set env this txt s = Raised e s' \<longrightarrow> Cell_Set env this txt s' = Raised e s')"
  using Cell_Set_twice [of this s env "txt" s1] Cell_Set_Raised [of env this "txt" s e s']
  by auto

theorem Set_idempotent_witness:
  "dependent_only_of_sources 3 example_sheet_evaluated
   \<and> Cell_Set example_env 3 ''=A01+C1'' example_sheet_evaluated = Returned () D1_sums_A1_C1
   \<and> map_option (Cell_GetText example_env) (cell_at D1_sums_A1_C1 3) = Some ''=A1+C1''
   \<and> Cell_Set example_env 3 ''=A01+C1'' D1_sums_A1_C1 = Returned () D1_sums_A1_C1
   \<and> Cell_Set example_env 1 ''=A1'' A1_reads_B1
       = Raised (CircularDependencyException ''Circular dependency detected'') A1_reads_B1"
proof -
  have h: "dependent_only_of_sources 3 example_sheet_evaluated"
    "Cell_Set example_env 3 ''=A01+C1'' example_sheet_evaluated = Returned () D1_sums_A1_C1"
    by code_simp+
  have t: "map_option (Cell_GetText example_env) (cell_at D1_sums_A1_C1 3) = Some ''=A1+C1''"
    by code_simp
  have r: "Cell_Set example_env 1 ''=A1'' A1_reads_B1
       = Raised (CircularDependencyException ''Circular dependency detected'') A1_reads_B1"
    by code_simp
  have "Cell_Set example_env 3 ''=A01+C1'' D1_sums_A1_C1 = Returned () D1_sums_A1_C1"
    using h Set_idempotent [of 3 example_sheet_evaluated example_env "''=A01+C1''" D1_sums_A1_C1]
    by blast
  moreover have "Cell_Set example_env 1 ''=A1'' A1_reads_B1
       = Raised (CircularDependencyException ''Circular dependency detected'') A1_reads_B1"
    using r Set_idempotent [of 1 A1_reads_B1 example_env "''=A1''" _
        "CircularDependencyException ''Circular dependency detected''" A1_reads_B1]
    by blast
  ultimately show ?thesis using h t by simp
qed

section \<open>Position codec: overflow\<close>

text \<open>
  Claim C8.  \<^verbatim>\<open>FromString\<close> should map a row number that overflows \<^verbatim>\<open>int\<close> to
  \<^verbatim>\<open>NONE\<close>.  The label \<^verbatim>\<open>A4294967297\<close> has eleven characters, so it passes the length
  check; its row number \<open>2 ^ 32 + 1\<close> wraps to \<open>1\<close>, and the final range check accepts
  the position \<open>(0, 0)\<close>.  The limits \<open>16384\<close> stand for any positive limits.
\<close>

theorem FromString_overflow_accepted:
  "FromString 16384 16384 ''A4294967297'' = Position 0 0
   \<and> IsValid 16384 16384 (FromString 16384 16384 ''A4294967297'')
   \<and> FromString 16384 16384 ''A4294967297'' \<noteq> NONE"
  by (simp add: FromString_def count_letters.simps isalpha_def isupper_def islower_def
      isdigit_def MAX_POSITION_LENGTH_def MAX_POS_LETTER_COUNT_def parse_col_def
      parse_row_def int32_def LETTERS_def IsValid_def NONE_def)

end
